theory Spec2Isabelle
  imports Main "HOL-Library.Sublist" "HOL-Library.Multiset"
begin

section \<open>Python strings\<close>

text \<open>
  A Python \<open>str\<close> is modelled as a \<open>string\<close>: a list of characters whose code points
  lie below 256. The character classes are the ones Python's \<open>str.isspace\<close> and the
  \<open>re\<close> module (\<open>\s\<close>, \<open>\d\<close>, \<open>\w\<close> on \<open>str\<close> patterns) assign to these code points.
\<close>

definition is_space :: "char \<Rightarrow> bool" where
  "is_space c = (let n = (of_char c :: nat) in
     (9 \<le> n \<and> n \<le> 13) \<or> (28 \<le> n \<and> n \<le> 32) \<or> n = 133 \<or> n = 160)"

definition is_digit :: "char \<Rightarrow> bool" where
  "is_digit c = (let n = (of_char c :: nat) in 48 \<le> n \<and> n \<le> 57)"

definition is_word :: "char \<Rightarrow> bool" where
  "is_word c = (let n = (of_char c :: nat) in
     (48 \<le> n \<and> n \<le> 57) \<or> (65 \<le> n \<and> n \<le> 90) \<or> n = 95 \<or> (97 \<le> n \<and> n \<le> 122) \<or>
     n = 170 \<or> n = 178 \<or> n = 179 \<or> n = 181 \<or> n = 185 \<or> n = 186 \<or>
     n = 188 \<or> n = 189 \<or> n = 190 \<or>
     (192 \<le> n \<and> n \<noteq> 215 \<and> n \<noteq> 247))"

text \<open>\<open>s.strip()\<close>: leading and trailing whitespace removed.\<close>

definition strip :: "string \<Rightarrow> string" where
  "strip s = rev (dropWhile is_space (rev (dropWhile is_space s)))"

text \<open>\<open>s.find(sub)\<close>: the lowest index at which \<open>sub\<close> occurs, \<open>None\<close> for Python's -1.\<close>

fun find_py :: "string \<Rightarrow> string \<Rightarrow> nat option" where
  "find_py sub [] = (if sub = [] then Some 0 else None)"
| "find_py sub (c # cs) =
     (if prefix sub (c # cs) then Some 0 else map_option Suc (find_py sub cs))"

text \<open>
  \<open>s.split(sep)\<close> with a non-empty separator: the text is scanned from the left, every
  occurrence of the separator closes a part, occurrences do not overlap.
\<close>

function split_scan :: "string \<Rightarrow> string \<Rightarrow> string \<Rightarrow> string list" where
  "split_scan sep acc [] = [rev acc]"
| "split_scan sep acc (c # cs) =
     (if sep \<noteq> [] \<and> prefix sep (c # cs)
      then rev acc # split_scan sep [] (drop (length sep) (c # cs))
      else split_scan sep (c # acc) cs)"
  by pat_completeness auto
termination
  by (relation "measure (\<lambda>(sep, acc, s). length s)") auto

datatype exn =
    ClientError string
  | ValueError string
  | KeyError string
  | IndexError
  | TypeError
  | FileNotFoundError
  | OSError
  | UnicodeError

text \<open>An empty separator makes \<open>str.split\<close> raise \<open>ValueError\<close>.\<close>

definition str_split :: "string \<Rightarrow> string \<Rightarrow> exn + string list" where
  "str_split sep s =
     (if sep = [] then Inl (ValueError ''empty separator'') else Inr (split_scan sep [] s))"


text \<open>
  \<open>s.replace(old, new)\<close>: occurrences of \<open>old\<close> are taken from the left and do not
  overlap. With an empty \<open>old\<close>, Python puts \<open>new\<close> before every character and at the end.
\<close>

function str_replace :: "string \<Rightarrow> string \<Rightarrow> string \<Rightarrow> string" where
  "str_replace old new [] = (if old = [] then new else [])"
| "str_replace old new (c # cs) =
     (if old = [] then new @ c # str_replace old new cs
      else if prefix old (c # cs) then new @ str_replace old new (drop (length old) (c # cs))
      else c # str_replace old new cs)"
  by pat_completeness auto
termination
  by (relation "measure (\<lambda>(old, new, s). length s)") auto

section \<open>htmlize.py\<close>

text \<open>
  \<open>html.escape(s)\<close> of the standard library, with its default \<open>quote=True\<close>: five
  replacements in sequence, the ampersand first.
\<close>

definition html_escape :: "string \<Rightarrow> string" where
  \<open>html_escape s =
     str_replace [CHR 0x27] ''&#x27;''
      (str_replace ''"'' ''&quot;''
        (str_replace ''>'' ''&gt;''
          (str_replace ''<'' ''&lt;''
            (str_replace ''&'' ''&amp;'' s))))\<close>

definition marker :: string where
  "marker = ''SUMMARY OF PROCESS''"

text \<open>
  Lines 16 to 18 of \<open>generate_html\<close>: \<open>parts = content.split(marker)\<close>, then
  \<open>parts[0].strip()\<close> and, when there is a second part, \<open>parts[1].strip()\<close>.
\<close>

definition split_content :: "string \<Rightarrow> exn + (string \<times> string)" where
  "split_content content =
     (case str_split marker content of
        Inl e \<Rightarrow> Inl e
      | Inr parts \<Rightarrow>
          (case parts of
             [] \<Rightarrow> Inl IndexError
           | p0 # ps \<Rightarrow>
               Inr (strip p0, (case ps of [] \<Rightarrow> [] | p1 # _ \<Rightarrow> strip p1))))"

text \<open>
  The expression interpolated at lines 39 and 43: escape, then four replacements in the
  order of the source. (The expression has backslashes inside an f-string, which Python
  accepts from version 3.12 on; the model is of the script as it runs there.)
\<close>

definition render_text :: "string \<Rightarrow> string" where
  \<open>render_text s =
     str_replace ''\<newline>'' ''<br>''
      (str_replace ''\<newline>\<newline>'' ''</p><p>''
        (str_replace ''</strong>**'' ''</strong>''
          (str_replace ''**'' ''<strong>'' (html_escape s))))\<close>

text \<open>The fixed text of the document around the two interpolated sections.\<close>

definition html_head :: string where
  \<open>html_head =
     ''\<newline>'' @
     ''    <!DOCTYPE html>\<newline>'' @
     ''    <html lang="en">\<newline>'' @
     ''    <head>\<newline>'' @
     ''        <meta charset="UTF-8">\<newline>'' @
     ''        <meta name="viewport" content="width=device-width, initial-scale=1.0">\<newline>'' @
     ''        <title>COT Python Script Response</title>\<newline>'' @
     ''        <style>\<newline>'' @
     ''            body { font-family: Arial, sans-serif; line-height: 1.6; padding: 20px; }\<newline>'' @
     ''            h1, h2 { color: #333; }\<newline>'' @
     ''            .section { background-color: #f0f0f0; padding: 15px; margin-bottom: 20px; }\<newline>'' @
     ''            .section p { font-size: 0.9em; }\<newline>'' @
     ''            .metadata { font-weight: bold; margin-left: 20px; }\<newline>'' @
     ''        </style>\<newline>'' @
     ''    </head>\<newline>'' @
     ''    <body>\<newline>'' @
     ''        <h1>COT Python Script Response</h1>\<newline>'' @
     ''        <div class="section">\<newline>'' @
     ''            <h2>Response</h2>\<newline>'' @
     ''            <p>''\<close>

definition html_mid :: string where
  \<open>html_mid =
     ''</p>\<newline>'' @
     ''        </div>\<newline>'' @
     ''        <div class="section">\<newline>'' @
     ''            <h2>Summary of Process</h2>\<newline>'' @
     ''            <p>''\<close>

definition html_tail :: string where
  \<open>html_tail =
     ''</p>\<newline>'' @
     ''        </div>\<newline>'' @
     ''        <div class="metadata">\<newline>'' @
     ''            <p><strong>Model:</strong> meta.llama3-70b-instruct-v1:0</p>\<newline>'' @
     ''            <p><strong>Input tokens:</strong> 698</p>\<newline>'' @
     ''            <p><strong>Output tokens:</strong> 478</p>\<newline>'' @
     ''            <p><strong>Total tokens:</strong> 1176</p>\<newline>'' @
     ''            <p><strong>Stop reason:</strong> end_turn</p>\<newline>'' @
     ''        </div>\<newline>'' @
     ''    </body>\<newline>'' @
     ''    </html>\<newline>'' @
     ''    ''\<close>

definition html_content :: "string \<Rightarrow> string \<Rightarrow> string" where
  "html_content response summary =
     html_head @ render_text response @ html_mid @ render_text summary @ html_tail"

text \<open>
  The two files are the script's environment: \<open>read_txt\<close> is what opening and reading
  \<open>response.txt\<close> gives (the content, or the exception raised), \<open>write_html\<close> what
  opening and writing \<open>response.html\<close> raises, if anything. \<open>FileNotFoundError\<close> is a
  subclass of \<open>OSError\<close>, and \<open>IOError\<close> is another name of \<open>OSError\<close>.
\<close>

record html_io =
  read_txt :: "exn + string"
  write_html :: "string \<Rightarrow> exn option"

definition is_OSError :: "exn \<Rightarrow> bool" where
  "is_OSError e = (e = FileNotFoundError \<or> e = OSError)"

text \<open>
  \<open>generate_html\<close> returns what it raised (or that it returned), the lines printed, and
  the text written to \<open>response.html\<close> when the write completed.
\<close>

definition generate_html :: "html_io \<Rightarrow> (exn + unit) \<times> string list \<times> string option" where
  \<open>generate_html io =
     (case read_txt io of
        Inl e \<Rightarrow>
          if e = FileNotFoundError then (Inr (), [''Error: response.txt file not found.''], None)
          else if is_OSError e then (Inr (), [''Error: Unable to read response.txt file.''], None)
          else (Inl e, [], None)
      | Inr content \<Rightarrow>
          (case split_content content of
             Inl e \<Rightarrow> (Inl e, [], None)
           | Inr (response, summary) \<Rightarrow>
               (case write_html io (html_content response summary) of
                  None \<Rightarrow>
                    (Inr (),
                     [''HTML file '' @ [CHR 0x27] @ ''response.html'' @ [CHR 0x27] @
                      '' has been generated successfully.''],
                     Some (html_content response summary))
                | Some e \<Rightarrow>
                    if is_OSError e
                    then (Inr (), [''Error: Unable to write to response.html file.''], None)
                    else (Inl e, [], None))))\<close>


section \<open>redfruit.py: the grade extractor\<close>

text \<open>
  Line 69: \<open>re.search(r'(\b-?\d{1,3}\b)(?=\s*out\s*of\s*100)', grading_text)\<close>.
  \<open>\b\<close> holds between two positions when exactly one of the neighbouring characters is a
  word character; the start and the end of the text count as non-word.
\<close>

definition char_at :: "string \<Rightarrow> nat \<Rightarrow> char option" where
  "char_at s i = (if i < length s then Some (s ! i) else None)"

definition word_boundary :: "char option \<Rightarrow> char option \<Rightarrow> bool" where
  "word_boundary prev nxt =
     ((case prev of None \<Rightarrow> False | Some c \<Rightarrow> is_word c) \<noteq>
      (case nxt of None \<Rightarrow> False | Some c \<Rightarrow> is_word c))"

text \<open>The lookahead \<open>(?=\s*out\s*of\s*100)\<close>; \<open>\s*\<close> is greedy and none of the words starts
  with whitespace, so each \<open>\s*\<close> takes the whole run of whitespace.\<close>

definition lookahead :: "string \<Rightarrow> bool" where
  "lookahead s =
     (let s1 = dropWhile is_space s in
      prefix ''out'' s1 \<and>
      (let s2 = dropWhile is_space (drop 3 s1) in
       prefix ''of'' s2 \<and> prefix ''100'' (dropWhile is_space (drop 2 s2))))"

text \<open>\<open>\d{1,3}\b(?=...)\<close> at the start of \<open>s\<close>: the greedy quantifier tries three digits, then
  two, then one; the result is the digits matched.\<close>

definition digits_here :: "string \<Rightarrow> string option" where
  "digits_here s =
     map_option (\<lambda>k. take k s)
       (List.find
          (\<lambda>k. k \<le> length (takeWhile is_digit s) \<and>
               word_boundary (char_at s (k - 1)) (char_at s k) \<and> lookahead (drop k s))
          [3, 2, 1])"

text \<open>The whole pattern at one position, \<open>prev\<close> being the character in front of it:
  \<open>\b\<close>, then \<open>-?\<close> (the minus sign first, nothing second), then the digits.\<close>

definition match_here :: "char option \<Rightarrow> string \<Rightarrow> string option" where
  "match_here prev s =
     (if \<not> word_boundary prev (char_at s 0) then None
      else
        (case (if prefix ''-'' s then map_option ((#) CHR ''-'') (digits_here (tl s)) else None) of
           Some m \<Rightarrow> Some m
         | None \<Rightarrow> digits_here s))"

text \<open>\<open>re.search\<close>: the first position, from the left, at which the pattern matches.\<close>

fun search_from :: "char option \<Rightarrow> string \<Rightarrow> string option" where
  "search_from prev [] = match_here prev []"
| "search_from prev (c # cs) =
     (case match_here prev (c # cs) of
        Some m \<Rightarrow> Some m
      | None \<Rightarrow> search_from (Some c) cs)"

definition re_search :: "string \<Rightarrow> string option" where
  "re_search s = search_from None s"

text \<open>\<open>int(m)\<close> for a decimal numeral with an optional minus sign, the only texts the
  pattern can match; on anything else the model raises \<open>ValueError\<close>.\<close>

definition digit_val :: "char \<Rightarrow> nat" where
  "digit_val c = of_char c - 48"

definition nat_of_digits :: "string \<Rightarrow> nat" where
  "nat_of_digits ds = foldl (\<lambda>a d. 10 * a + digit_val d) 0 ds"

definition int_py :: "string \<Rightarrow> exn + int" where
  "int_py s =
     (let body = (if prefix ''-'' s then tl s else s) in
      if body = [] \<or> \<not> list_all is_digit body then Inl (ValueError ''invalid literal for int()'')
      else if prefix ''-'' s then Inr (- int (nat_of_digits body))
      else Inr (int (nat_of_digits body)))"

text \<open>Lines 65 to 73 of \<open>grade_response\<close>, on the text the model returned.\<close>

definition extract_grade :: "string \<Rightarrow> exn + int" where
  "extract_grade text =
     (let grading_text = strip text in
      case re_search grading_text of
        Some m \<Rightarrow> int_py m
      | None \<Rightarrow>
          Inl (ValueError (''Could not extract a valid grade from the response: '' @ grading_text)))"


section \<open>redfruit.py: the run\<close>

text \<open>\<open>str(n)\<close> of an integer, as the f-strings print it.\<close>

fun str_nat :: "nat \<Rightarrow> string" where
  "str_nat n =
     (if n < 10 then [char_of (48 + n)] else str_nat (n div 10) @ [char_of (48 + n mod 10)])"

declare str_nat.simps [simp del]

definition str_int :: "int \<Rightarrow> string" where
  "str_int i = (if i < 0 then CHR ''-'' # str_nat (nat (- i)) else str_nat (nat i))"

text \<open>
  The model service is the environment of the run. A request carries what
  \<open>generate_conversation\<close> passes to \<open>converse\<close> and varies between calls; the call either
  returns a reply or raises \<open>ClientError\<close> with a message.
\<close>

record request =
  modelId :: string
  system :: string
  message :: string
  maxTokens :: int

record reply =
  out_text :: string
  inputTokens :: int
  outputTokens :: int
  totalTokens :: int
  stopReason :: string

datatype converse_result = Converse reply | ConverseFails string

text \<open>
  \<open>converse env k req\<close> is the outcome of the \<open>k\<close>-th call of the run when it sends
  \<open>req\<close>; \<open>clock env k\<close> is the \<open>k\<close>-th reading of \<open>time.time()\<close>. Times are floats:
  their type is left open, \<open>elapsed\<close> is the float subtraction and \<open>fmt2f\<close> the format
  \<open>:.2f\<close>.
\<close>

record 't env =
  converse :: "nat \<Rightarrow> request \<Rightarrow> converse_result"
  clock :: "nat \<Rightarrow> 't"
  elapsed :: "'t \<Rightarrow> 't \<Rightarrow> 't"
  fmt2f :: "'t \<Rightarrow> string"

datatype level = INFO | ERROR

text \<open>
  What the run changes: the requests sent so far, the number of clock readings, the
  logger's lines, the lines printed, and the content of \<open>response.txt\<close> (\<open>None\<close> while
  the file does not exist).
\<close>

record world =
  calls :: "request list"
  ticks :: nat
  logged :: "(level \<times> string) list"
  stdout :: "string list"
  response_txt :: "string option"

definition log_info :: "string \<Rightarrow> world \<Rightarrow> world" where
  "log_info m w = w\<lparr>logged := logged w @ [(INFO, m)]\<rparr>"

definition log_error :: "string \<Rightarrow> world \<Rightarrow> world" where
  "log_error m w = w\<lparr>logged := logged w @ [(ERROR, m)]\<rparr>"

definition print :: "string \<Rightarrow> world \<Rightarrow> world" where
  "print m w = w\<lparr>stdout := stdout w @ [m]\<rparr>"

definition time_time :: "'t env \<Rightarrow> world \<Rightarrow> 't \<times> world" where
  "time_time env w = (clock env (ticks w), w\<lparr>ticks := Suc (ticks w)\<rparr>)"

definition file_write :: "string \<Rightarrow> world \<Rightarrow> world" where
  "file_write s w = w\<lparr>response_txt := map_option (\<lambda>content. content @ s) (response_txt w)\<rparr>"

text \<open>Lines 11 to 41.\<close>

definition generate_conversation ::
  "'t env \<Rightarrow> string \<Rightarrow> string \<Rightarrow> string \<Rightarrow> int \<Rightarrow> world \<Rightarrow> (exn + reply) \<times> world" where
  "generate_conversation env model_id system_prompts msg max_gen_len w =
     (let w1 = log_info (''Generating message with model '' @ model_id) w;
          req = \<lparr>modelId = model_id, system = system_prompts, message = msg,
                 maxTokens = max_gen_len\<rparr>;
          w2 = w1\<lparr>calls := calls w1 @ [req]\<rparr>
      in case converse env (length (calls w1)) req of
           ConverseFails m \<Rightarrow> (Inl (ClientError m), w2)
         | Converse r \<Rightarrow>
             (Inr r,
              log_info (''Stop reason: '' @ stopReason r)
               (log_info (''Total tokens: '' @ str_int (totalTokens r))
                 (log_info (''Output tokens: '' @ str_int (outputTokens r))
                   (log_info (''Input tokens: '' @ str_int (inputTokens r)) w2)))))"

text \<open>Lines 43 to 52.\<close>

definition get_feedback ::
  "'t env \<Rightarrow> string \<Rightarrow> string \<Rightarrow> string \<Rightarrow> world \<Rightarrow> (exn + string) \<times> world" where
  "get_feedback env model_id response system_prompts w =
     (case generate_conversation env model_id system_prompts
             (''Provide critical feedback for the following answer:\<newline>\<newline>'' @ response) 512 w of
        (Inl e, w') \<Rightarrow> (Inl e, w')
      | (Inr r, w') \<Rightarrow> (Inr (out_text r), w'))"

text \<open>Lines 54 to 73.\<close>

definition grade_response ::
  "'t env \<Rightarrow> string \<Rightarrow> string \<Rightarrow> string \<Rightarrow> string \<Rightarrow> world \<Rightarrow> (exn + int) \<times> world" where
  "grade_response env model_id response feedback system_prompts w =
     (case generate_conversation env model_id system_prompts
             (''Grade the following response on a scale from -100 to 100 based on the feedback:''
              @ ''\<newline>\<newline>Response: '' @ response @ ''\<newline>Feedback: '' @ feedback) 100 w of
        (Inl e, w') \<Rightarrow> (Inl e, w')
      | (Inr r, w') \<Rightarrow>
          (extract_grade (out_text r),
           log_info (''Grading response: '' @ strip (out_text r)) w'))"

text \<open>The dictionaries of the list \<open>responses\<close>. The keys \<open>feedback_time_taken\<close> and
  \<open>grade_time_taken\<close> are absent until the first round sets them.\<close>

record 't candidate =
  response :: string
  feedback :: "string option"
  grade :: "int option"
  time_taken :: 't
  feedback_time_taken :: "'t option"
  grade_time_taken :: "'t option"

definition model_id :: string where
  "model_id = ''meta.llama3-70b-instruct-v1:0''"

definition system_prompts :: string where
  "system_prompts = ''You are a highly technical assistant providing concise and accurate reports on complex deep learning topics.''"

definition message_1 :: string where
  "message_1 = ''Provide a concise and technical explanation of transformers in deep learning.''"

text \<open>Lines 103 to 108: the loop \<open>for i in range(3)\<close>, \<open>n\<close> being the iterations left.\<close>

fun seed_loop ::
  "'t env \<Rightarrow> nat \<Rightarrow> 't candidate list \<Rightarrow> world \<Rightarrow> (exn + 't candidate list) \<times> world" where
  "seed_loop env 0 responses w = (Inr responses, w)"
| "seed_loop env (Suc n) responses w =
     (case time_time env w of
        (response_start_time, w1) \<Rightarrow>
          (case generate_conversation env model_id system_prompts message_1 1024 w1 of
             (Inl e, w2) \<Rightarrow> (Inl e, w2)
           | (Inr r, w2) \<Rightarrow>
               (case time_time env w2 of
                  (t, w3) \<Rightarrow>
                    seed_loop env n
                      (responses @
                       [\<lparr>response = out_text r, feedback = None, grade = None,
                         time_taken = elapsed env t response_start_time,
                         feedback_time_taken = None, grade_time_taken = None\<rparr>])
                      w3)))"

text \<open>Lines 114 to 126: the body of the loop over \<open>enumerate(responses)\<close>, for one
  candidate.\<close>

definition assess_one ::
  "'t env \<Rightarrow> 't candidate \<Rightarrow> world \<Rightarrow> (exn + 't candidate) \<times> world" where
  "assess_one env r w =
     (case time_time env w of
        (feedback_start_time, w1) \<Rightarrow>
          (case get_feedback env model_id (response r) system_prompts w1 of
             (Inl e, w2) \<Rightarrow> (Inl e, w2)
           | (Inr fb, w2) \<Rightarrow>
               (case time_time env w2 of
                  (t1, w3) \<Rightarrow>
                    (case time_time env w3 of
                       (grade_start_time, w4) \<Rightarrow>
                         (case grade_response env model_id (response r) fb system_prompts w4 of
                            (Inl e, w5) \<Rightarrow> (Inl e, w5)
                          | (Inr g, w5) \<Rightarrow>
                              (case time_time env w5 of
                                 (t2, w6) \<Rightarrow>
                                   (Inr (r\<lparr>feedback := Some fb,
                                           feedback_time_taken :=
                                             Some (elapsed env t1 feedback_start_time),
                                           grade := Some g,
                                           grade_time_taken :=
                                             Some (elapsed env t2 grade_start_time)\<rparr>),
                                    w6)))))))"

fun assess_all ::
  "'t env \<Rightarrow> 't candidate list \<Rightarrow> world \<Rightarrow> (exn + 't candidate list) \<times> world" where
  "assess_all env [] w = (Inr [], w)"
| "assess_all env (r # rs) w =
     (case assess_one env r w of
        (Inl e, w1) \<Rightarrow> (Inl e, w1)
      | (Inr r', w1) \<Rightarrow>
          (case assess_all env rs w1 of
             (Inl e, w2) \<Rightarrow> (Inl e, w2)
           | (Inr rs', w2) \<Rightarrow> (Inr (r' # rs'), w2)))"

text \<open>
  Line 129: \<open>sorted(responses, key=lambda x: x['grade'], reverse=True)\<close>. CPython sorts
  with \<open>reverse=True\<close> by reversing the list, sorting it stably in ascending order and
  reversing the result. Comparing \<open>None\<close> raises \<open>TypeError\<close>; a list of fewer than two
  elements is never compared.
\<close>

definition sorted_by_grade :: "'t candidate list \<Rightarrow> exn + 't candidate list" where
  "sorted_by_grade rs =
     (if 2 \<le> length rs \<and> list_ex (\<lambda>r. grade r = None) rs then Inl TypeError
      else Inr (rev (sort_key (\<lambda>r. the (grade r)) (rev rs))))"

definition str_grade :: "int option \<Rightarrow> string" where
  "str_grade g = (case g of None \<Rightarrow> ''None'' | Some i \<Rightarrow> str_int i)"

definition str_feedback :: "string option \<Rightarrow> string" where
  "str_feedback f = (case f of None \<Rightarrow> ''None'' | Some t \<Rightarrow> t)"

text \<open>Lines 131 to 141: the best response is logged, refined, and its text replaced.\<close>

definition refine_best ::
  "'t env \<Rightarrow> nat \<Rightarrow> 't candidate list \<Rightarrow> world \<Rightarrow> (exn + 't candidate list) \<times> world" where
  "refine_best env iteration rs w =
     (case rs of
        [] \<Rightarrow> (Inl IndexError, w)
      | best # others \<Rightarrow>
          (case generate_conversation env model_id system_prompts
                  (''Refine the following response to make it more concise and technical but retain information:\<newline>\<newline>''
                   @ response best) 1024
                  (log_info (''Best response at iteration '' @ str_int (int iteration + 1) @ '': ''
                             @ response best @ '' (Grade: '' @ str_grade (grade best) @ '')'') w) of
             (Inl e, w1) \<Rightarrow> (Inl e, w1)
           | (Inr r, w1) \<Rightarrow> (Inr (best\<lparr>response := out_text r\<rparr> # others), w1)))"

text \<open>Lines 112 to 141: one round.\<close>

definition iteration_body ::
  "'t env \<Rightarrow> nat \<Rightarrow> 't candidate list \<Rightarrow> world \<Rightarrow> (exn + 't candidate list) \<times> world" where
  "iteration_body env iteration rs w =
     (case assess_all env rs (log_info (''Iteration '' @ str_int (int iteration + 1)) w) of
        (Inl e, w1) \<Rightarrow> (Inl e, w1)
      | (Inr rs1, w1) \<Rightarrow>
          (case sorted_by_grade rs1 of
             Inl e \<Rightarrow> (Inl e, w1)
           | Inr rs2 \<Rightarrow> refine_best env iteration rs2 w1))"

text \<open>Line 111: \<open>for iteration in range(num_iterations)\<close>, \<open>n\<close> being the rounds left.\<close>

fun rounds ::
  "'t env \<Rightarrow> nat \<Rightarrow> nat \<Rightarrow> 't candidate list \<Rightarrow> world \<Rightarrow> (exn + 't candidate list) \<times> world" where
  "rounds env 0 iteration rs w = (Inr rs, w)"
| "rounds env (Suc n) iteration rs w =
     (case iteration_body env iteration rs w of
        (Inl e, w1) \<Rightarrow> (Inl e, w1)
      | (Inr rs1, w1) \<Rightarrow> rounds env n (Suc iteration) rs1 w1)"

text \<open>Lines 151 to 157: the block of one candidate. A missing key raises \<open>KeyError\<close> when its
  line is formatted, after the lines before it were written.\<close>

definition write_block :: "'t env \<Rightarrow> nat \<Rightarrow> 't candidate \<Rightarrow> world \<Rightarrow> (exn + unit) \<times> world" where
  "write_block env i r w =
     (let w4 =
        file_write (''Response generation time: '' @ fmt2f env (time_taken r) @ '' seconds\<newline>'')
         (file_write (''Grade: '' @ str_grade (grade r) @ ''\<newline>'')
           (file_write (''Feedback: '' @ str_feedback (feedback r) @ ''\<newline>'')
             (file_write (''Response: '' @ response r @ ''\<newline>'')
               (file_write (''\<newline>Response '' @ str_int (int i + 1) @ '':\<newline>'') w))))
      in case feedback_time_taken r of
           None \<Rightarrow> (Inl (KeyError ''feedback_time_taken''), w4)
         | Some ft \<Rightarrow>
             (let w5 = file_write (''Feedback generation time: '' @ fmt2f env ft @ '' seconds\<newline>'') w4
              in case grade_time_taken r of
                   None \<Rightarrow> (Inl (KeyError ''grade_time_taken''), w5)
                 | Some gt \<Rightarrow>
                     (Inr (), file_write (''Grading time: '' @ fmt2f env gt @ '' seconds\<newline>'') w5)))"

fun write_blocks :: "'t env \<Rightarrow> nat \<Rightarrow> 't candidate list \<Rightarrow> world \<Rightarrow> (exn + unit) \<times> world" where
  "write_blocks env i [] w = (Inr (), w)"
| "write_blocks env i (r # rs) w =
     (case write_block env i r w of
        (Inl e, w1) \<Rightarrow> (Inl e, w1)
      | (Inr u, w1) \<Rightarrow> write_blocks env (Suc i) rs w1)"

text \<open>Lines 147 to 159.\<close>

definition write_summary ::
  "'t env \<Rightarrow> 't \<Rightarrow> 't candidate list \<Rightarrow> world \<Rightarrow> (exn + unit) \<times> world" where
  "write_summary env total_time_taken rs w =
     (case write_blocks env 0 rs
             (file_write (''Total time taken for the process: '' @ fmt2f env total_time_taken
                          @ '' seconds\<newline>'')
               (file_write (replicate 40 CHR ''='' @ ''\<newline>'')
                 (file_write ''\<newline>SUMMARY OF PROCESS\<newline>'' w))) of
        (Inl e, w1) \<Rightarrow> (Inl e, w1)
      | (Inr u, w1) \<Rightarrow>
          (case rs of
             [] \<Rightarrow> (Inl IndexError, file_write (replicate 40 CHR ''='' @ ''\<newline>'') w1)
           | best # others \<Rightarrow>
               (Inr (),
                file_write (''Best response: '' @ response best @ '' (Grade: ''
                            @ str_grade (grade best) @ '')\<newline>'')
                  (file_write (replicate 40 CHR ''='' @ ''\<newline>'') w1))))"

text \<open>Lines 100 to 141: the seed responses and the rounds. \<open>range(num_iterations)\<close> is empty
  for a number below one.\<close>

definition run_rounds ::
  "'t env \<Rightarrow> int \<Rightarrow> world \<Rightarrow> (exn + 't candidate list) \<times> world" where
  "run_rounds env num_iterations w =
     (case seed_loop env 3 [] w of
        (Inl e, w1) \<Rightarrow> (Inl e, w1)
      | (Inr responses, w1) \<Rightarrow> rounds env (nat num_iterations) 0 responses w1)"

text \<open>Lines 95 to 98: the start time is read, then \<open>response.txt\<close> is opened for writing,
  which empties it.\<close>

definition open_file :: "'t env \<Rightarrow> world \<Rightarrow> 't \<times> world" where
  "open_file env w = (case time_time env w of (start_time, w1) \<Rightarrow> (start_time, w1\<lparr>response_txt := Some []\<rparr>))"

text \<open>Lines 95 to 159: the body of the \<open>try\<close> statement. Leaving the \<open>with\<close> block closes the
  file, so the file holds every write made, also when an exception ends the block.\<close>

definition try_body :: "'t env \<Rightarrow> int \<Rightarrow> world \<Rightarrow> (exn + unit) \<times> world" where
  "try_body env num_iterations w =
     (case open_file env w of
        (start_time, w1) \<Rightarrow>
          (case run_rounds env num_iterations w1 of
             (Inl e, w2) \<Rightarrow> (Inl e, w2)
           | (Inr rs, w2) \<Rightarrow>
               (case time_time env w2 of
                  (t, w3) \<Rightarrow> write_summary env (elapsed env t start_time) rs w3)))"

text \<open>\<open>main\<close>: only \<open>ClientError\<close> is caught; \<open>Inl\<close> is an exception that leaves \<open>main\<close>.\<close>

definition main :: "'t env \<Rightarrow> int \<Rightarrow> world \<Rightarrow> (exn + unit) \<times> world" where
  "main env num_iterations w =
     (case try_body env num_iterations w of
        (Inl (ClientError m), w1) \<Rightarrow>
          (Inr (),
           print (''A client error occurred: '' @ m)
             (log_error (''A client error occurred: '' @ m) w1))
      | (Inl e, w1) \<Rightarrow> (Inl e, w1)
      | (Inr u, w1) \<Rightarrow> (Inr (), w1))"


section \<open>Notions used by the properties\<close>

text \<open>What \<open>html.escape\<close> does to one character, and the characters it rewrites.\<close>

definition esc_char :: "char \<Rightarrow> string" where
  \<open>esc_char c =
     (if c = CHR ''&'' then ''&amp;''
      else if c = CHR ''<'' then ''&lt;''
      else if c = CHR ''>'' then ''&gt;''
      else if c = CHR ''"'' then ''&quot;''
      else if c = CHR 0x27 then ''&#x27;''
      else [c])\<close>

definition special :: "char \<Rightarrow> bool" where
  \<open>special c =
     (c = CHR ''&'' \<or> c = CHR ''<'' \<or> c = CHR ''>'' \<or> c = CHR ''"'' \<or> c = CHR 0x27)\<close>

text \<open>An assessed candidate with a given text and grade, for the examples.\<close>

definition cand :: "string \<Rightarrow> int \<Rightarrow> nat candidate" where
  "cand t g = \<lparr>response = t, feedback = Some ''f'', grade = Some g, time_taken = 0,
               feedback_time_taken = Some 0, grade_time_taken = Some 0\<rparr>"

section \<open>Notions used by the properties of the grade extractor\<close>

text \<open>The pattern of line 69 tried at position \<open>i\<close> of the text \<open>s\<close>: what \<open>re.search\<close> tries
  there, with the character in front of the position.\<close>

definition pattern_at :: "string \<Rightarrow> nat \<Rightarrow> string option" where
  "pattern_at s i = match_here (if i = 0 then None else Some (s ! (i - 1))) (drop i s)"

text \<open>The same from a position of a text that has \<open>prev\<close> in front of it.\<close>

definition match_from :: "char option \<Rightarrow> string \<Rightarrow> nat \<Rightarrow> string option" where
  "match_from prev s i = match_here (if i = 0 then prev else Some (s ! (i - 1))) (drop i s)"

text \<open>Position \<open>i\<close> starts with a minus sign that a digit follows.\<close>

definition signed_at :: "string \<Rightarrow> nat \<Rightarrow> bool" where
  "signed_at s i =
     (case drop i s of
        c # d # _ \<Rightarrow> c = CHR ''-'' \<and> is_digit d
      | _ \<Rightarrow> False)"

text \<open>
  A grade written without a sign, in the words of the specification: at position \<open>i\<close>
  stands the run \<open>ds\<close> of one to three digits, no word character precedes it, whitespace
  follows it, and then \<open>out\<close>, \<open>of\<close> and \<open>100\<close> with any whitespace, or none, between
  them.
\<close>

definition unsigned_token :: "string \<Rightarrow> nat \<Rightarrow> string \<Rightarrow> bool" where
  "unsigned_token s i ds =
     (ds \<noteq> [] \<and> length ds \<le> 3 \<and> list_all is_digit ds \<and>
      (i = 0 \<or> \<not> is_word (s ! (i - 1))) \<and>
      (\<exists>w1 w2 w3 post.
         drop i s = ds @ w1 @ ''out'' @ w2 @ ''of'' @ w3 @ ''100'' @ post \<and>
         w1 \<noteq> [] \<and> list_all is_space (w1 @ w2 @ w3)))"

section \<open>Notions used by the properties of the run\<close>

text \<open>
  A call went well when the service replied and, for a grading call (the only call with
  \<open>maxTokens = 100\<close>), a grade could be extracted from the reply.
\<close>

definition good_call :: "'t env \<Rightarrow> nat \<Rightarrow> request \<Rightarrow> bool" where
  "good_call env k req =
     (case converse env k req of
        ConverseFails m \<Rightarrow> False
      | Converse r \<Rightarrow> (if maxTokens req = 100 then \<not> isl (extract_grade (out_text r)) else True))"

text \<open>A call explains the exception \<open>e\<close>: the service raised it, or the grade extractor
  did on the reply to a grading call.\<close>

definition bad_call :: "'t env \<Rightarrow> nat \<Rightarrow> request \<Rightarrow> exn \<Rightarrow> bool" where
  "bad_call env k req e =
     (case converse env k req of
        ConverseFails m \<Rightarrow> e = ClientError m
      | Converse r \<Rightarrow> maxTokens req = 100 \<and> extract_grade (out_text r) = Inl e)"

text \<open>Every request of a list, the \<open>k\<close>-th being the \<open>k\<close>-th call, went well.\<close>

definition all_good :: "'t env \<Rightarrow> request list \<Rightarrow> bool" where
  "all_good env cs = list_all (\<lambda>(k, req). good_call env k req) (enumerate 0 cs)"

text \<open>The exceptions that a call can end with.\<close>

definition is_call_failure :: "exn \<Rightarrow> bool" where
  "is_call_failure e = (case e of ClientError m \<Rightarrow> True | ValueError m \<Rightarrow> True | _ \<Rightarrow> False)"

text \<open>
  What the requests sent say about the result of a part of the run: after a result, and
  after an exception that no call raised, every call went well; after an exception of a
  call, the last call raised it and every call before it went well.
\<close>

definition run_inv :: "'t env \<Rightarrow> request list \<Rightarrow> exn + 'a \<Rightarrow> bool" where
  "run_inv env cs res =
     (case res of
        Inr x \<Rightarrow> all_good env cs
      | Inl e \<Rightarrow>
          (if is_call_failure e
           then cs \<noteq> [] \<and> all_good env (butlast cs) \<and> bad_call env (length cs - 1) (last cs) e
           else all_good env cs))"

text \<open>A part of the run, from \<open>w\<close> to \<open>w'\<close> with result \<open>res\<close>, leaves the file and the console
  alone and keeps the relation between the calls and the result.\<close>

definition step_ok :: "'t env \<Rightarrow> world \<Rightarrow> exn + 'a \<Rightarrow> world \<Rightarrow> bool" where
  "step_ok env w res w' =
     (response_txt w' = response_txt w \<and> stdout w' = stdout w \<and>
      (all_good env (calls w) \<longrightarrow> run_inv env (calls w') res))"

text \<open>A candidate that went through a round has all four keys set.\<close>

definition assessed :: "'t candidate \<Rightarrow> bool" where
  "assessed r = (feedback r \<noteq> None \<and> grade r \<noteq> None \<and>
                 feedback_time_taken r \<noteq> None \<and> grade_time_taken r \<noteq> None)"

text \<open>A candidate with the four keys of a round cleared.\<close>

definition unassessed :: "'t candidate \<Rightarrow> 't candidate" where
  "unassessed r = r\<lparr>feedback := None, grade := None,
                     feedback_time_taken := None, grade_time_taken := None\<rparr>"

text \<open>
  The summary as the specification describes it, to compare with what \<open>write_summary\<close>
  writes: the block of the candidate at index \<open>i\<close>, and the whole summary.
\<close>

definition spec_block :: "'t env \<Rightarrow> nat \<Rightarrow> 't candidate \<Rightarrow> string" where
  "spec_block env i r =
     ''\<newline>Response '' @ str_int (int i + 1) @ '':\<newline>'' @
     ''Response: '' @ response r @ ''\<newline>'' @
     ''Feedback: '' @ the (feedback r) @ ''\<newline>'' @
     ''Grade: '' @ str_int (the (grade r)) @ ''\<newline>'' @
     ''Response generation time: '' @ fmt2f env (time_taken r) @ '' seconds\<newline>'' @
     ''Feedback generation time: '' @ fmt2f env (the (feedback_time_taken r)) @ '' seconds\<newline>'' @
     ''Grading time: '' @ fmt2f env (the (grade_time_taken r)) @ '' seconds\<newline>''"

definition spec_summary :: "'t env \<Rightarrow> 't \<Rightarrow> 't candidate list \<Rightarrow> string" where
  "spec_summary env total_time rs =
     ''\<newline>SUMMARY OF PROCESS\<newline>'' @
     replicate 40 CHR ''='' @ ''\<newline>'' @
     ''Total time taken for the process: '' @ fmt2f env total_time @ '' seconds\<newline>'' @
     concat (map (\<lambda>(i, r). spec_block env i r) (enumerate 0 rs)) @
     replicate 40 CHR ''='' @ ''\<newline>'' @
     ''Best response: '' @ response (hd rs) @ '' (Grade: '' @ str_int (the (grade (hd rs))) @ '')\<newline>''"

text \<open>\<open>w'\<close> is \<open>w\<close> after some text was appended to the file.\<close>

definition appended :: "world \<Rightarrow> world \<Rightarrow> bool" where
  "appended w w' = (\<exists>s. w' = file_write s w)"

text \<open>
  Example runs. The service answers from a script, whatever the request; the clock counts
  its readings, so every measured time is 1 and the format prints whole seconds.
\<close>

definition reply_of :: "string \<Rightarrow> converse_result" where
  "reply_of t = Converse \<lparr>out_text = t, inputTokens = 1, outputTokens = 2, totalTokens = 3,
                          stopReason = ''end_turn''\<rparr>"

definition scripted :: "converse_result list \<Rightarrow> nat env" where
  "scripted rs =
     \<lparr>converse = (\<lambda>k req. if k < length rs then rs ! k else ConverseFails ''no more replies''),
      clock = (\<lambda>k. k), elapsed = (\<lambda>a b. a - b), fmt2f = (\<lambda>t. str_nat t @ ''.00'')\<rparr>"

text \<open>The state before a run: no call made, no file.\<close>

definition fresh :: world where
  "fresh = \<lparr>calls = [], ticks = 0, logged = [], stdout = [], response_txt = None\<rparr>"

text \<open>One round: three seeds, feedback and grades 50, 90 and 20, and the refined text.\<close>

definition one_round :: "converse_result list" where
  "one_round = [reply_of ''alpha'', reply_of ''beta'', reply_of ''gamma'',
                reply_of ''fa'', reply_of ''50 out of 100'',
                reply_of ''fb'', reply_of ''90 out of 100'',
                reply_of ''fc'', reply_of ''20 out of 100'',
                reply_of ''delta'']"

text \<open>The candidates after that round, and the file it writes.\<close>

definition one_round_result :: "nat candidate list" where
  "one_round_result =
     [\<lparr>response = ''delta'', feedback = Some ''fb'', grade = Some 90, time_taken = 1,
        feedback_time_taken = Some 1, grade_time_taken = Some 1\<rparr>,
      \<lparr>response = ''alpha'', feedback = Some ''fa'', grade = Some 50, time_taken = 1,
        feedback_time_taken = Some 1, grade_time_taken = Some 1\<rparr>,
      \<lparr>response = ''gamma'', feedback = Some ''fc'', grade = Some 20, time_taken = 1,
        feedback_time_taken = Some 1, grade_time_taken = Some 1\<rparr>]"

definition one_round_transcript :: string where
  "one_round_transcript =
     ''\<newline>SUMMARY OF PROCESS\<newline>'' @
     ''========================================\<newline>'' @
     ''Total time taken for the process: 19.00 seconds\<newline>'' @
     ''\<newline>Response 1:\<newline>Response: delta\<newline>Feedback: fb\<newline>Grade: 90\<newline>'' @
     ''Response generation time: 1.00 seconds\<newline>'' @
     ''Feedback generation time: 1.00 seconds\<newline>Grading time: 1.00 seconds\<newline>'' @
     ''\<newline>Response 2:\<newline>Response: alpha\<newline>Feedback: fa\<newline>Grade: 50\<newline>'' @
     ''Response generation time: 1.00 seconds\<newline>'' @
     ''Feedback generation time: 1.00 seconds\<newline>Grading time: 1.00 seconds\<newline>'' @
     ''\<newline>Response 3:\<newline>Response: gamma\<newline>Feedback: fc\<newline>Grade: 20\<newline>'' @
     ''Response generation time: 1.00 seconds\<newline>'' @
     ''Feedback generation time: 1.00 seconds\<newline>Grading time: 1.00 seconds\<newline>'' @
     ''========================================\<newline>'' @
     ''Best response: delta (Grade: 90)\<newline>''"

text \<open>The three seed candidates of that run.\<close>

definition seeds :: "nat candidate list" where
  "seeds =
     [\<lparr>response = ''alpha'', feedback = None, grade = None, time_taken = 1,
        feedback_time_taken = None, grade_time_taken = None\<rparr>,
      \<lparr>response = ''beta'', feedback = None, grade = None, time_taken = 1,
        feedback_time_taken = None, grade_time_taken = None\<rparr>,
      \<lparr>response = ''gamma'', feedback = None, grade = None, time_taken = 1,
        feedback_time_taken = None, grade_time_taken = None\<rparr>]"

text \<open>A run whose fifth call, the first grading call, is refused; and a run whose first
  grading reply holds no grade.\<close>

definition client_error_run :: "converse_result list" where
  "client_error_run = [reply_of ''alpha'', reply_of ''beta'', reply_of ''gamma'',
                       reply_of ''fa'', ConverseFails ''throttled'']"

definition no_grade_run :: "converse_result list" where
  "no_grade_run = [reply_of ''alpha'', reply_of ''beta'', reply_of ''gamma'',
                   reply_of ''fa'', reply_of ''no grade'']"

section \<open>Properties: strings\<close>

lemma find_py_None_iff: "find_py sub s = None \<longleftrightarrow> \<not> sublist sub s"
  by (induction s) (auto simp: sublist_Cons_right)

text \<open>\<open>find_py\<close> gives the first occurrence.\<close>

lemma find_py_first:
  "find_py sub s = Some i \<Longrightarrow> prefix sub (drop i s) \<and> (\<forall>j<i. \<not> prefix sub (drop j s))"
proof (induction s arbitrary: i)
  case Nil
  then show ?case by (auto split: if_splits)
next
  case (Cons c cs)
  show ?case
  proof (cases "prefix sub (c # cs)")
    case True
    with Cons.prems show ?thesis by simp
  next
    case False
    with Cons.prems obtain k where k: "find_py sub cs = Some k" "i = Suc k" by auto
    from Cons.IH[OF k(1)] have ih: "prefix sub (drop k cs)" "\<forall>j<k. \<not> prefix sub (drop j cs)"
      by auto
    show ?thesis
    proof (intro conjI allI impI)
      show "prefix sub (drop i (c # cs))" using ih k by simp
    next
      fix j assume "j < i"
      then show "\<not> prefix sub (drop j (c # cs))"
        using False ih(2) k(2) by (cases j) auto
    qed
  qed
qed

lemma split_scan_no_sep:
  "sep \<noteq> [] \<Longrightarrow> find_py sep s = None \<Longrightarrow> split_scan sep acc s = [rev acc @ s]"
  by (induction s arbitrary: acc) (auto split: if_splits)

lemma split_scan_first:
  "sep \<noteq> [] \<Longrightarrow> find_py sep s = Some i \<Longrightarrow>
   split_scan sep acc s = (rev acc @ take i s) # split_scan sep [] (drop (i + length sep) s)"
proof (induction s arbitrary: acc i)
  case Nil
  then show ?case by simp
next
  case (Cons c cs)
  show ?case
  proof (cases "prefix sep (c # cs)")
    case True
    with Cons.prems show ?thesis by simp
  next
    case False
    with Cons.prems obtain k where k: "find_py sep cs = Some k" "i = Suc k" by auto
    show ?thesis
      using False Cons.IH[OF Cons.prems(1) k(1), of "c # acc"] k(2) Cons.prems(1) by simp
  qed
qed

lemma str_replace_char:
  "str_replace [a] new s = concat (map (\<lambda>c. if c = a then new else [c]) s)"
  by (induction s) auto

lemma set_str_replace_char: "set (str_replace [a] new u) \<subseteq> set u \<union> set new"
  unfolding str_replace_char by (induction u) auto

lemma str_replace_absent: "a \<notin> set s \<Longrightarrow> str_replace [a] new s = s"
  unfolding str_replace_char by (induction s) auto

lemma str_replace_no_occurrence:
  "old \<noteq> [] \<Longrightarrow> \<not> sublist old s \<Longrightarrow> str_replace old new s = s"
  by (induction s) (auto simp: sublist_Cons_right)

lemma not_sublist_drop: "\<not> sublist p s \<Longrightarrow> \<not> sublist p (drop n s)"
  by (meson sublist_drop sublist_order.order_trans)

text \<open>A character of the result that is not the first of \<open>new\<close> was copied from the text.\<close>

lemma str_replace_head:
  assumes "old \<noteq> []" and "new = n # ns" and "x \<noteq> n" and "str_replace old new s = x # r"
  shows "\<exists>s'. s = x # s' \<and> r = str_replace old new s'"
  using assms by (cases s) (auto split: if_splits)

section \<open>Properties: htmlize.py\<close>

subsection \<open>Splitting at the marker\<close>

lemma marker_nonempty: "marker \<noteq> []"
  by (simp add: marker_def)

lemma split_content_no_marker:
  "find_py marker content = None \<Longrightarrow> split_content content = Inr (strip content, [])"
  by (simp add: split_content_def str_split_def marker_nonempty split_scan_no_sep)

lemma split_content_marker:
  assumes "find_py marker content = Some i"
  shows "split_content content =
     Inr (strip (take i content),
          strip (case find_py marker (drop (i + length marker) content) of
                   None \<Rightarrow> drop (i + length marker) content
                 | Some j \<Rightarrow> take j (drop (i + length marker) content)))"
proof (cases "find_py marker (drop (i + length marker) content)")
  case None
  then show ?thesis
    using assms
    by (simp add: split_content_def str_split_def marker_nonempty split_scan_first
        split_scan_no_sep)
next
  case (Some j)
  then show ?thesis
    using assms
    by (simp add: split_content_def str_split_def marker_nonempty split_scan_first)
qed

text \<open>
  C2, as the code has it. \<open>generate_html\<close> never fails on the split. Without a marker
  the response is the whole content, trimmed, and the summary is empty. With a marker,
  the first at index \<open>i\<close>, the response is the text before it, trimmed, and the summary is
  the text after it up to the next marker (to the end when there is no other marker),
  trimmed: text after a second marker is dropped.
\<close>

theorem split_content_parts:
  "split_content content =
     (case find_py marker content of
        None \<Rightarrow> Inr (strip content, [])
      | Some i \<Rightarrow>
          Inr (strip (take i content),
               strip (case find_py marker (drop (i + length marker) content) of
                        None \<Rightarrow> drop (i + length marker) content
                      | Some j \<Rightarrow> take j (drop (i + length marker) content))))"
  by (simp add: split_content_no_marker split_content_marker split: option.split)

text \<open>The example of the specification, and a content without marker.\<close>

theorem split_content_parts_witness:
  "split_content ''A\<newline>\<newline>SUMMARY OF PROCESS\<newline>B'' = Inr (''A'', ''B'') \<and>
   split_content ''no marker here '' = Inr (''no marker here'', [])"
  using split_content_parts[of "''A\<newline>\<newline>SUMMARY OF PROCESS\<newline>B''"]
        split_content_parts[of "''no marker here ''"]
  by (simp add: marker_def strip_def is_space_def)

text \<open>
  C2 as stated fails when the marker occurs twice: the first marker is at index 3,
  everything after it, trimmed, is \<open>B SUMMARY OF PROCESS C\<close>, and the summary is \<open>B\<close>.
\<close>

theorem split_content_second_marker:
  "find_py marker ''A\<newline>\<newline>SUMMARY OF PROCESS\<newline>B SUMMARY OF PROCESS C'' = Some 3 \<and>
   strip (drop (3 + length marker) ''A\<newline>\<newline>SUMMARY OF PROCESS\<newline>B SUMMARY OF PROCESS C'')
     = ''B SUMMARY OF PROCESS C'' \<and>
   split_content ''A\<newline>\<newline>SUMMARY OF PROCESS\<newline>B SUMMARY OF PROCESS C'' = Inr (''A'', ''B'')"
  by (simp add: marker_def strip_def is_space_def split_content_def str_split_def)

subsection \<open>Escaping\<close>

lemma concat_map_concat_map:
  "concat (map f (concat (map g s))) = concat (map (\<lambda>c. concat (map f (g c))) s)"
  by (induction s) auto

text \<open>The five replacements of \<open>html.escape\<close> amount to rewriting each character once.\<close>

lemma html_escape_chars: "html_escape s = concat (map esc_char s)"
  unfolding html_escape_def str_replace_char concat_map_concat_map
  by (rule arg_cong[where f = concat], rule map_cong[OF refl]) (simp add: esc_char_def)

lemma esc_char_plain: "\<not> special c \<Longrightarrow> esc_char c = [c]"
  by (simp add: special_def esc_char_def)

lemma esc_char_set: "set (esc_char c) \<inter> {CHR ''<'', CHR ''>'', CHR 0x22, CHR 0x27} = {}"
  by (simp add: esc_char_def)

lemma esc_char_amp: "special c \<Longrightarrow> CHR ''&'' \<in> set (esc_char c)"
  by (auto simp add: special_def esc_char_def)

lemma esc_char_length: "length (esc_char c) \<ge> 1" "special c \<Longrightarrow> length (esc_char c) > 1"
  by (auto simp add: special_def esc_char_def)

lemma html_escape_length: "length s \<le> length (html_escape s)"
  unfolding html_escape_chars
proof (induction s)
  case (Cons c cs)
  then show ?case using esc_char_length(1)[of c] by simp
qed simp

lemma html_escape_longer: "\<exists>c\<in>set s. special c \<Longrightarrow> length s < length (html_escape s)"
  unfolding html_escape_chars
proof (induction s)
  case (Cons c cs)
  show ?case
  proof (cases "special c")
    case True
    then show ?thesis using esc_char_length(2)[of c] html_escape_length[of cs]
      by (simp add: html_escape_chars)
  next
    case False
    then show ?thesis using Cons esc_char_length(1)[of c] by auto
  qed
qed simp

lemma html_escape_plain: "\<not> (\<exists>c\<in>set s. special c) \<Longrightarrow> html_escape s = s"
  unfolding html_escape_chars by (induction s) (auto simp: esc_char_plain)

lemma html_escape_no_angle:
  "set (html_escape s) \<inter> {CHR ''<'', CHR ''>'', CHR 0x22, CHR 0x27} = {}"
  unfolding html_escape_chars using esc_char_set by (induction s) auto

lemma html_escape_has_amp: "\<exists>c\<in>set s. special c \<Longrightarrow> CHR ''&'' \<in> set (html_escape s)"
  unfolding html_escape_chars using esc_char_amp by (induction s) auto

text \<open>Escaped text has no angle bracket and no quote left, so a second pass rewrites
  nothing but the ampersands, those of the entities of the first pass included.\<close>

lemma html_escape_twice:
  "html_escape (html_escape s) = str_replace ''&'' ''&amp;'' (html_escape s)"
proof -
  let ?t = "str_replace ''&'' ''&amp;'' (html_escape s)"
  have "set ?t \<subseteq> set (html_escape s) \<union> set ''&amp;''"
    by (rule set_str_replace_char)
  with html_escape_no_angle[of s]
  have t: "CHR ''<'' \<notin> set ?t" "CHR ''>'' \<notin> set ?t" "CHR 0x22 \<notin> set ?t" "CHR 0x27 \<notin> set ?t"
    by auto
  show ?thesis
    unfolding html_escape_def[of "html_escape s"]
    by (simp add: t str_replace_absent)
qed

text \<open>
  C8, as the code has it. \<open>html.escape\<close> is not idempotent: escaping escaped text gives the
  same text exactly when the original has none of the five characters \<open>& < > " '\<close>.
  Escaped text contains no angle bracket (and no quote), so the second pass never
  touches an angle bracket: it rewrites every ampersand, those of the entities of the
  first pass included, to \<open>&amp;\<close>.
\<close>

theorem html_escape_idempotent_iff:
  "(html_escape (html_escape s) = html_escape s \<longleftrightarrow> \<not> (\<exists>c\<in>set s. special c)) \<and>
   html_escape (html_escape s) = str_replace ''&'' ''&amp;'' (html_escape s) \<and>
   CHR ''<'' \<notin> set (html_escape s) \<and> CHR ''>'' \<notin> set (html_escape s)"
proof (intro conjI)
  show "html_escape (html_escape s) = html_escape s \<longleftrightarrow> \<not> (\<exists>c\<in>set s. special c)"
  proof
    assume same: "html_escape (html_escape s) = html_escape s"
    show "\<not> (\<exists>c\<in>set s. special c)"
    proof
      assume "\<exists>c\<in>set s. special c"
      then have "CHR ''&'' \<in> set (html_escape s)" by (rule html_escape_has_amp)
      then have "\<exists>c\<in>set (html_escape s). special c" by (auto simp: special_def)
      then have "length (html_escape s) < length (html_escape (html_escape s))"
        by (rule html_escape_longer)
      with same show False by simp
    qed
  next
    assume "\<not> (\<exists>c\<in>set s. special c)"
    then show "html_escape (html_escape s) = html_escape s" by (simp add: html_escape_plain)
  qed
  show "html_escape (html_escape s) = str_replace ''&'' ''&amp;'' (html_escape s)"
    by (rule html_escape_twice)
  show "CHR ''<'' \<notin> set (html_escape s)" "CHR ''>'' \<notin> set (html_escape s)"
    using html_escape_no_angle[of s] by auto
qed

theorem html_escape_idempotent_iff_witness:
  "html_escape (html_escape ''**bold**'') = html_escape ''**bold**'' \<and>
   \<not> (\<exists>c\<in>set ''**bold**''. special c)"
  using html_escape_idempotent_iff[of "''**bold**''"] by (simp add: special_def)

text \<open>C8 as stated fails on a text with \<open><\<close>, \<open>&\<close> and \<open>**bold**\<close>: the second pass escapes
  the ampersands of \<open>&lt;\<close> and \<open>&amp;\<close> again.\<close>

theorem html_escape_not_idempotent:
  "html_escape ''a < b & **bold**'' = ''a &lt; b &amp; **bold**'' \<and>
   html_escape (html_escape ''a < b & **bold**'') = ''a &amp;lt; b &amp;amp; **bold**'' \<and>
   html_escape (html_escape ''a < b & **bold**'') \<noteq> html_escape ''a < b & **bold**''"
  by (simp add: html_escape_def)

subsection \<open>The bold markup\<close>

text \<open>After a replacement whose inserted text keeps \<open></\<close> out, a text without \<open><\<close> has
  no \<open></\<close>.\<close>

lemma open_tag_only:
  assumes old: "old \<noteq> []"
    and inside: "\<And>r. sublist ''</'' (new @ r) \<Longrightarrow> sublist ''</'' r"
  shows "CHR ''<'' \<notin> set s \<Longrightarrow> \<not> sublist ''</'' (str_replace old new s)"
proof (induction s rule: length_induct)
  case (1 s)
  show ?case
  proof (cases s)
    case Nil
    with old show ?thesis by simp
  next
    case (Cons c cs)
    show ?thesis
    proof (cases "prefix old (c # cs)")
      case True
      let ?rest = "drop (length old) (c # cs)"
      have "length ?rest < length s" using old Cons by simp
      moreover have "CHR ''<'' \<notin> set ?rest" using "1.prems" Cons by (meson in_set_dropD)
      ultimately have "\<not> sublist ''</'' (str_replace old new ?rest)" using "1.IH" by blast
      moreover have "str_replace old new s = new @ str_replace old new ?rest"
        using True old Cons by simp
      ultimately show ?thesis using inside by auto
    next
      case False
      have "\<not> sublist ''</'' (str_replace old new cs)" using "1.IH" "1.prems" Cons by simp
      moreover have "str_replace old new s = c # str_replace old new cs"
        using False old Cons by simp
      moreover have "c \<noteq> CHR ''<''" using "1.prems" Cons by auto
      ultimately show ?thesis by (simp add: sublist_Cons_right)
    qed
  qed
qed

text \<open>A replacement whose inserted text starts with \<open><\<close> and keeps \<open></s\<close> out creates no
  \<open></s\<close>.\<close>

lemma close_tag_kept_out:
  assumes old: "old \<noteq> []"
    and new: "new = CHR ''<'' # ns"
    and inside: "\<And>r. sublist ''</s'' (new @ r) \<Longrightarrow> sublist ''</s'' r"
  shows "\<not> sublist ''</s'' s \<Longrightarrow> \<not> sublist ''</s'' (str_replace old new s)"
proof (induction s rule: length_induct)
  case (1 s)
  show ?case
  proof (cases s)
    case Nil
    with old show ?thesis by simp
  next
    case (Cons c cs)
    show ?thesis
    proof (cases "prefix old (c # cs)")
      case True
      let ?rest = "drop (length old) (c # cs)"
      have "length ?rest < length s" using old Cons by simp
      moreover have "\<not> sublist ''</s'' ?rest" using "1.prems" Cons not_sublist_drop by blast
      ultimately have "\<not> sublist ''</s'' (str_replace old new ?rest)" using "1.IH" by blast
      moreover have "str_replace old new s = new @ str_replace old new ?rest"
        using True old Cons by simp
      ultimately show ?thesis using inside by auto
    next
      case False
      have tail: "\<not> sublist ''</s'' cs" and here: "\<not> prefix ''</s'' (c # cs)"
        using "1.prems" Cons by (auto simp: sublist_Cons_right)
      have ih: "\<not> sublist ''</s'' (str_replace old new cs)" using "1.IH" tail Cons by simp
      have eq: "str_replace old new s = c # str_replace old new cs"
        using False old Cons by simp
      have "\<not> prefix ''</s'' (c # str_replace old new cs)"
      proof
        assume p: "prefix ''</s'' (c # str_replace old new cs)"
        then obtain r where c: "c = CHR ''<''" and r: "str_replace old new cs = CHR ''/'' # r"
          and r2: "prefix ''s'' r"
          by (cases "str_replace old new cs") auto
        from str_replace_head[OF old new _ r] obtain cs' where
          cs': "cs = CHR ''/'' # cs'" "r = str_replace old new cs'" by auto
        from r2 obtain r' where r': "r = CHR ''s'' # r'" by (cases r) auto
        from str_replace_head[OF old new _ r'[unfolded cs'(2)]] obtain cs'' where
          "cs' = CHR ''s'' # cs''" by auto
        with c cs' here show False by simp
      qed
      with ih eq show ?thesis by (simp add: sublist_Cons_right)
    qed
  qed
qed

lemma no_slash_no_close:
  assumes "\<not> sublist ''</'' s"
  shows "\<not> sublist ''</s'' s" and "\<not> sublist ''</strong>**'' s"
proof -
  have "sublist ''</'' ''</s''" "sublist ''</'' ''</strong>**''"
    by (simp_all add: sublist_Cons_right)
  with assms show "\<not> sublist ''</s'' s" and "\<not> sublist ''</strong>**'' s"
    by (meson sublist_order.order_trans)+
qed

lemma no_close_tag: "\<not> sublist ''</s'' s \<Longrightarrow> \<not> sublist ''</strong>'' s"
proof -
  have "sublist ''</s'' ''</strong>''" by (simp add: sublist_Cons_right)
  then show "\<not> sublist ''</s'' s \<Longrightarrow> \<not> sublist ''</strong>'' s"
    by (meson sublist_order.order_trans)
qed

lemma bold_opens_only:
  "CHR ''<'' \<notin> set t \<Longrightarrow> \<not> sublist ''</'' (str_replace ''**'' ''<strong>'' t)"
  by (rule open_tag_only) (simp_all add: sublist_Cons_right)

lemma paragraphs_keep_out:
  "\<not> sublist ''</s'' s \<Longrightarrow> \<not> sublist ''</s'' (str_replace ''\<newline>\<newline>'' ''</p><p>'' s)"
  by (rule close_tag_kept_out[where ns = "''/p><p>''"]) (simp_all add: sublist_Cons_right)

lemma breaks_keep_out:
  "\<not> sublist ''</s'' s \<Longrightarrow> \<not> sublist ''</s'' (str_replace ''\<newline>'' ''<br>'' s)"
  by (rule close_tag_kept_out[where ns = "''br>''"]) (simp_all add: sublist_Cons_right)

text \<open>
  C10. For every text, the escaped text has no \<open><\<close>; after \<open>**\<close> became \<open><strong>\<close> the
  text \<open></strong>**\<close> does not occur, so the second replacement changes nothing; and the
  rendered section has no closing \<open></strong>\<close> tag. (The fixed metadata block of the
  document has closing tags of its own; the property is about the two interpolated
  sections.)
\<close>

theorem render_text_never_closes:
  "CHR ''<'' \<notin> set (html_escape s) \<and>
   str_replace ''</strong>**'' ''</strong>'' (str_replace ''**'' ''<strong>'' (html_escape s))
     = str_replace ''**'' ''<strong>'' (html_escape s) \<and>
   render_text s =
     str_replace ''\<newline>'' ''<br>''
       (str_replace ''\<newline>\<newline>'' ''</p><p>'' (str_replace ''**'' ''<strong>'' (html_escape s))) \<and>
   \<not> sublist ''</strong>'' (render_text s)"
proof -
  let ?b = "str_replace ''**'' ''<strong>'' (html_escape s)"
  have lt: "CHR ''<'' \<notin> set (html_escape s)" using html_escape_no_angle[of s] by auto
  then have b: "\<not> sublist ''</'' ?b" by (rule bold_opens_only)
  then have same: "str_replace ''</strong>**'' ''</strong>'' ?b = ?b"
    by (simp add: str_replace_no_occurrence no_slash_no_close(2))
  then have r: "render_text s =
      str_replace ''\<newline>'' ''<br>'' (str_replace ''\<newline>\<newline>'' ''</p><p>'' ?b)"
    by (simp add: render_text_def)
  have "\<not> sublist ''</s'' ?b" using b by (rule no_slash_no_close(1))
  then have "\<not> sublist ''</s'' (render_text s)"
    unfolding r by (intro breaks_keep_out paragraphs_keep_out)
  then have "\<not> sublist ''</strong>'' (render_text s)" by (rule no_close_tag)
  with lt same r show ?thesis by blast
qed

text \<open>On \<open>**bold**\<close> both pairs of asterisks become opening tags.\<close>

theorem render_text_never_closes_witness:
  "render_text ''a **bold** b'' = ''a <strong>bold<strong> b'' \<and>
   \<not> sublist ''</strong>'' (render_text ''a **bold** b'')"
proof -
  have "render_text ''a **bold** b'' = ''a <strong>bold<strong> b''"
    using render_text_never_closes[of "''a **bold** b''"] by (simp add: html_escape_def)
  moreover have "\<not> sublist ''</strong>'' (render_text ''a **bold** b'')"
    using render_text_never_closes[of "''a **bold** b''"] by blast
  ultimately show ?thesis by blast
qed

subsection \<open>File errors\<close>

text \<open>
  C9. A missing \<open>response.txt\<close>, any other \<open>OSError\<close> while reading it, and an \<open>OSError\<close>
  while writing \<open>response.html\<close> each end \<open>generate_html\<close> with a normal return and one
  printed line; after a read failure nothing is written, whatever the write would do.
\<close>

theorem generate_html_file_errors:
  "(read_txt io = Inl FileNotFoundError \<longrightarrow>
      generate_html io = (Inr (), [''Error: response.txt file not found.''], None)) \<and>
   (read_txt io = Inl OSError \<longrightarrow>
      generate_html io = (Inr (), [''Error: Unable to read response.txt file.''], None)) \<and>
   (\<forall>content response summary e.
      read_txt io = Inr content \<and> split_content content = Inr (response, summary) \<and>
      write_html io (html_content response summary) = Some e \<and> is_OSError e \<longrightarrow>
      generate_html io = (Inr (), [''Error: Unable to write to response.html file.''], None))"
proof (intro conjI impI allI)
  assume "read_txt io = Inl FileNotFoundError"
  then show "generate_html io = (Inr (), [''Error: response.txt file not found.''], None)"
    by (simp add: generate_html_def)
next
  assume "read_txt io = Inl OSError"
  then show "generate_html io = (Inr (), [''Error: Unable to read response.txt file.''], None)"
    by (simp add: generate_html_def is_OSError_def)
next
  fix content response summary e
  assume "read_txt io = Inr content \<and> split_content content = Inr (response, summary) \<and>
      write_html io (html_content response summary) = Some e \<and> is_OSError e"
  then show "generate_html io = (Inr (), [''Error: Unable to write to response.html file.''], None)"
    by (simp add: generate_html_def)
qed

text \<open>The three failures, each on its own.\<close>

theorem generate_html_file_errors_witness:
  "generate_html \<lparr>read_txt = Inl FileNotFoundError, write_html = (\<lambda>h. Some OSError)\<rparr>
     = (Inr (), [''Error: response.txt file not found.''], None) \<and>
   generate_html \<lparr>read_txt = Inl OSError, write_html = (\<lambda>h. None)\<rparr>
     = (Inr (), [''Error: Unable to read response.txt file.''], None) \<and>
   generate_html \<lparr>read_txt = Inr ''A'', write_html = (\<lambda>h. Some OSError)\<rparr>
     = (Inr (), [''Error: Unable to write to response.html file.''], None)"
  using generate_html_file_errors[of "\<lparr>read_txt = Inl FileNotFoundError, write_html = (\<lambda>h. Some OSError)\<rparr>"]
        generate_html_file_errors[of "\<lparr>read_txt = Inl OSError, write_html = (\<lambda>h. None)\<rparr>"]
        generate_html_file_errors[of "\<lparr>read_txt = Inr ''A'', write_html = (\<lambda>h. Some OSError)\<rparr>"]
  by (simp add: is_OSError_def split_content_def str_split_def marker_def strip_def)

section \<open>Properties: the sort\<close>

lemma find_filter_hd:
  "List.find P xs = (case filter P xs of [] \<Rightarrow> None | x # _ \<Rightarrow> Some x)"
  by (induction xs) auto

lemma rev_sort_stable:
  "filter (\<lambda>y. f y = k) (rev (sort_key f (rev xs))) = filter (\<lambda>y. f y = k) xs"
  by (simp add: rev_filter[symmetric] sort_key_stable)

lemma rev_sort_descending: "sorted_wrt (\<ge>) (map f (rev (sort_key f (rev xs))))"
proof -
  have "sorted (map f (sort_key f (rev xs)))" by simp
  then have "sorted_wrt (\<ge>) (rev (map f (sort_key f (rev xs))))"
    by (simp only: sorted_wrt_rev)
  then show ?thesis by (simp only: rev_map)
qed

lemma rev_sort_mset: "mset (rev (sort_key f (rev xs))) = mset xs"
  by simp

lemma descending_hd_max:
  "sorted_wrt (\<ge>) (map f ys) \<Longrightarrow> ys \<noteq> [] \<Longrightarrow> y \<in> set ys \<Longrightarrow> f y \<le> (f (hd ys) :: int)"
  by (cases ys) auto

lemma sorted_by_grade_graded:
  assumes "\<forall>r\<in>set rs. grade r \<noteq> None"
  shows "sorted_by_grade rs = Inr (rev (sort_key (\<lambda>r. the (grade r)) (rev rs)))"
  using assms by (auto simp: sorted_by_grade_def list_ex_iff)

text \<open>
  C4. When every candidate has a grade, as at line 129, the sort succeeds; its result is a
  permutation of the list in descending order of grade; candidates of equal grade keep
  their order; and the candidate at index 0 is the first candidate of the input list
  that has the highest grade.
\<close>

theorem sorted_by_grade_stable:
  assumes graded: "\<forall>r\<in>set rs. grade r \<noteq> None"
  shows "\<exists>ys. sorted_by_grade rs = Inr ys \<and>
           mset ys = mset rs \<and>
           sorted_wrt (\<ge>) (map (\<lambda>r. the (grade r)) ys) \<and>
           (\<forall>g. filter (\<lambda>r. grade r = Some g) ys = filter (\<lambda>r. grade r = Some g) rs) \<and>
           (rs \<noteq> [] \<longrightarrow>
              List.find (\<lambda>r. grade r = Some (Max ((\<lambda>r. the (grade r)) ` set rs))) rs = Some (hd ys))"
proof -
  let ?f = "\<lambda>r::'a candidate. the (grade r)"
  let ?ys = "rev (sort_key ?f (rev rs))"
  have res: "sorted_by_grade rs = Inr ?ys" using graded by (rule sorted_by_grade_graded)
  have m: "mset ?ys = mset rs" by simp
  have set_eq: "set ?ys = set rs" by simp
  have d: "sorted_wrt (\<ge>) (map ?f ?ys)" by (rule rev_sort_descending)
  have key: "\<And>r g. r \<in> set rs \<Longrightarrow> (grade r = Some g) = (?f r = g)"
    using graded by auto
  have st: "filter (\<lambda>r. grade r = Some g) ?ys = filter (\<lambda>r. grade r = Some g) rs" for g
  proof -
    have "filter (\<lambda>r. grade r = Some g) ?ys = filter (\<lambda>r. ?f r = g) ?ys"
      by (rule filter_cong[OF refl]) (use key set_eq in blast)
    also have "\<dots> = filter (\<lambda>r. ?f r = g) rs" by (rule rev_sort_stable)
    also have "\<dots> = filter (\<lambda>r. grade r = Some g) rs"
      by (rule filter_cong[OF refl]) (use key in blast)
    finally show ?thesis .
  qed
  have best: "List.find (\<lambda>r. grade r = Some (Max (?f ` set rs))) rs = Some (hd ?ys)" if ne: "rs \<noteq> []"
  proof -
    have "length ?ys = length rs" by simp
    then have ne': "?ys \<noteq> []" using ne by (metis length_0_conv)
    then have hd_in: "hd ?ys \<in> set rs" using set_eq hd_in_set by blast
    have "\<And>r. r \<in> set rs \<Longrightarrow> ?f r \<le> ?f (hd ?ys)"
      using descending_hd_max[OF d ne'] set_eq by blast
    then have mx: "Max (?f ` set rs) = ?f (hd ?ys)"
      using hd_in by (intro Max_eqI) auto
    then have top: "grade (hd ?ys) = Some (Max (?f ` set rs))" using key[OF hd_in] by simp
    obtain y ys' where y: "?ys = y # ys'" using ne' by (cases ?ys) auto
    have "filter (\<lambda>r. grade r = Some (Max (?f ` set rs))) ?ys
            = y # filter (\<lambda>r. grade r = Some (Max (?f ` set rs))) ys'"
      using top unfolding y by simp
    then have "filter (\<lambda>r. grade r = Some (Max (?f ` set rs))) rs
            = y # filter (\<lambda>r. grade r = Some (Max (?f ` set rs))) ys'"
      using st by simp
    then show ?thesis unfolding find_filter_hd y by simp
  qed
  show ?thesis using res m d st best by blast
qed

text \<open>The grades 10, 30, 30, -5 of the specification.\<close>

theorem sorted_by_grade_stable_witness:
  "sorted_by_grade [cand ''a'' 10, cand ''b'' 30, cand ''c'' 30, cand ''d'' (- 5)]
     = Inr [cand ''b'' 30, cand ''c'' 30, cand ''a'' 10, cand ''d'' (- 5)] \<and>
   (\<exists>ys. sorted_by_grade [cand ''a'' 10, cand ''b'' 30, cand ''c'' 30, cand ''d'' (- 5)] = Inr ys \<and>
      hd ys = cand ''b'' 30 \<and>
      filter (\<lambda>r. grade r = Some 30) ys = [cand ''b'' 30, cand ''c'' 30])"
proof -
  let ?rs = "[cand ''a'' 10, cand ''b'' 30, cand ''c'' 30, cand ''d'' (- 5)]"
  have graded: "\<forall>r\<in>set ?rs. grade r \<noteq> None" by (simp add: cand_def)
  from sorted_by_grade_stable[OF graded] obtain ys where
    ys: "sorted_by_grade ?rs = Inr ys"
    and st: "\<forall>g. filter (\<lambda>r. grade r = Some g) ys = filter (\<lambda>r. grade r = Some g) ?rs"
    and best: "List.find (\<lambda>r. grade r = Some (Max ((\<lambda>r. the (grade r)) ` set ?rs))) ?rs = Some (hd ys)"
    by auto
  have "filter (\<lambda>r. grade r = Some 30) ys = [cand ''b'' 30, cand ''c'' 30]"
    using st by (simp add: cand_def)
  moreover have "hd ys = cand ''b'' 30" using best by (simp add: cand_def)
  moreover have "sorted_by_grade ?rs = Inr [cand ''b'' 30, cand ''c'' 30, cand ''a'' 10, cand ''d'' (- 5)]"
    by (simp add: sorted_by_grade_def cand_def)
  ultimately show ?thesis using ys by blast
qed

section \<open>Properties: the grade extractor\<close>

lemma digit_is_word: "is_digit c \<Longrightarrow> is_word c"
  by (auto simp: is_digit_def is_word_def Let_def)

lemma space_not_word: "is_space c \<Longrightarrow> \<not> is_word c"
  by (auto simp: is_space_def is_word_def Let_def)

lemma space_not_digit: "is_space c \<Longrightarrow> \<not> is_digit c"
  by (auto simp: is_space_def is_digit_def Let_def)

lemma minus_not_digit: "\<not> is_digit CHR ''-''" "\<not> is_word CHR ''-''" "\<not> is_space CHR ''-''"
  by (simp_all add: is_digit_def is_word_def is_space_def)

lemma letters_not_space: "\<not> is_space CHR ''o''" "\<not> is_space CHR ''1''"
  by (simp_all add: is_space_def)

lemma dropWhile_spaces:
  "list_all is_space w \<Longrightarrow> \<not> is_space c \<Longrightarrow> dropWhile is_space (w @ c # r) = c # r"
  by (induction w) auto

lemma lookahead_shape:
  assumes "lookahead rest"
  shows "\<exists>w1 w2 w3 post. rest = w1 @ ''out'' @ w2 @ ''of'' @ w3 @ ''100'' @ post \<and>
           list_all is_space w1 \<and> list_all is_space w2 \<and> list_all is_space w3"
proof -
  let ?w1 = "takeWhile is_space rest"
  let ?s1 = "dropWhile is_space rest"
  let ?w2 = "takeWhile is_space (drop 3 ?s1)"
  let ?s2 = "dropWhile is_space (drop 3 ?s1)"
  let ?w3 = "takeWhile is_space (drop 2 ?s2)"
  let ?s3 = "dropWhile is_space (drop 2 ?s2)"
  from assms have p1: "prefix ''out'' ?s1" and p2: "prefix ''of'' ?s2" and p3: "prefix ''100'' ?s3"
    by (simp_all add: lookahead_def Let_def)
  from p3 obtain post where s3: "?s3 = ''100'' @ post" by (auto simp: prefix_def)
  from p2 have s2: "?s2 = ''of'' @ drop 2 ?s2" by (auto simp: prefix_def)
  from p1 have s1: "?s1 = ''out'' @ drop 3 ?s1" by (auto simp: prefix_def)
  have "rest = ?w1 @ ?s1" by simp
  also have "\<dots> = ?w1 @ ''out'' @ drop 3 ?s1" using s1 by simp
  also have "drop 3 ?s1 = ?w2 @ ?s2" by simp
  also have "?s2 = ''of'' @ drop 2 ?s2" using s2 by simp
  also have "drop 2 ?s2 = ?w3 @ ?s3" by simp
  also have "?s3 = ''100'' @ post" by (rule s3)
  finally have "rest = ?w1 @ ''out'' @ ?w2 @ ''of'' @ ?w3 @ ''100'' @ post" .
  moreover have "list_all is_space ?w1" "list_all is_space ?w2" "list_all is_space ?w3"
    by (simp_all add: list_all_iff) (meson set_takeWhileD)+
  ultimately show ?thesis by blast
qed

lemma lookahead_holds:
  assumes "list_all is_space w1" "list_all is_space w2" "list_all is_space w3"
  shows "lookahead (w1 @ ''out'' @ w2 @ ''of'' @ w3 @ ''100'' @ post)"
  using assms by (simp add: lookahead_def Let_def dropWhile_spaces letters_not_space)

lemma digits_here_shape:
  assumes "digits_here s = Some m"
  shows "\<exists>rest. s = m @ rest \<and> m \<noteq> [] \<and> length m \<le> 3 \<and> list_all is_digit m \<and> lookahead rest"
proof -
  from assms obtain k where
    k: "List.find (\<lambda>k. k \<le> length (takeWhile is_digit s) \<and>
               word_boundary (char_at s (k - 1)) (char_at s k) \<and> lookahead (drop k s))
          [3, 2, 1] = Some k" and m: "m = take k s"
    by (auto simp: digits_here_def)
  from k have k13: "k = 1 \<or> k = 2 \<or> k = 3"
    and le: "k \<le> length (takeWhile is_digit s)" and la: "lookahead (drop k s)"
    by (auto split: if_splits)
  have tk: "take k s = take k (takeWhile is_digit s)"
    using le by (metis append_eq_conv_conj take_append takeWhile_dropWhile_id diff_is_0_eq take_0 append_Nil2)
  have "length (takeWhile is_digit s) \<le> length s" by (rule length_takeWhile_le)
  with le have "k \<le> length s" by simp
  then have len: "length m = k" using m by simp
  have "list_all is_digit m"
    unfolding m tk list_all_iff by (meson in_set_takeD set_takeWhileD)
  moreover have "s = m @ drop k s" using m by simp
  ultimately show ?thesis using len k13 la by (intro exI[of _ "drop k s"]) auto
qed

lemma match_here_shape:
  assumes "match_here prev s = Some m"
  shows "\<exists>sgn ds rest. s = sgn @ ds @ rest \<and> m = sgn @ ds \<and> (sgn = [] \<or> sgn = ''-'') \<and>
           ds \<noteq> [] \<and> length ds \<le> 3 \<and> list_all is_digit ds \<and> lookahead rest"
proof (cases "prefix ''-'' s \<and> digits_here (tl s) \<noteq> None")
  case True
  then obtain ds where ds: "digits_here (tl s) = Some ds" by auto
  with assms True have m: "m = CHR ''-'' # ds" by (auto simp: match_here_def split: if_splits)
  from True obtain t where s: "s = CHR ''-'' # t" by (cases s) auto
  from digits_here_shape[OF ds] s obtain rest where
    "t = ds @ rest" "ds \<noteq> []" "length ds \<le> 3" "list_all is_digit ds" "lookahead rest" by auto
  then show ?thesis using m s by (intro exI[of _ "''-''"] exI[of _ ds] exI[of _ rest]) simp
next
  case False
  with assms have "digits_here s = Some m"
    by (auto simp: match_here_def split: if_splits option.splits)
  from digits_here_shape[OF this] obtain rest where
    "s = m @ rest" "m \<noteq> []" "length m \<le> 3" "list_all is_digit m" "lookahead rest" by auto
  then show ?thesis by (intro exI[of _ "[]"] exI[of _ m] exI[of _ rest]) simp
qed

lemma search_from_shape:
  "search_from prev s = Some m \<Longrightarrow>
   \<exists>pre sgn ds rest. s = pre @ sgn @ ds @ rest \<and> m = sgn @ ds \<and> (sgn = [] \<or> sgn = ''-'') \<and>
     ds \<noteq> [] \<and> length ds \<le> 3 \<and> list_all is_digit ds \<and> lookahead rest"
proof (induction s arbitrary: prev)
  case Nil
  then have "match_here prev [] = Some m" by simp
  from match_here_shape[OF this] show ?case by auto
next
  case (Cons c cs)
  show ?case
  proof (cases "match_here prev (c # cs)")
    case (Some m')
    with Cons.prems have "match_here prev (c # cs) = Some m" by simp
    from match_here_shape[OF this] obtain sgn ds rest where
      "c # cs = sgn @ ds @ rest \<and> m = sgn @ ds \<and> (sgn = [] \<or> sgn = ''-'') \<and>
           ds \<noteq> [] \<and> length ds \<le> 3 \<and> list_all is_digit ds \<and> lookahead rest" by blast
    then show ?thesis by (intro exI[of _ "[]"] exI[of _ sgn] exI[of _ ds] exI[of _ rest]) simp
  next
    case None
    with Cons.prems have "search_from (Some c) cs = Some m" by simp
    from Cons.IH[OF this] obtain pre sgn ds rest where
      "cs = pre @ sgn @ ds @ rest \<and> m = sgn @ ds \<and> (sgn = [] \<or> sgn = ''-'') \<and>
           ds \<noteq> [] \<and> length ds \<le> 3 \<and> list_all is_digit ds \<and> lookahead rest" by blast
    then show ?thesis by (intro exI[of _ "c # pre"] exI[of _ sgn] exI[of _ ds] exI[of _ rest]) simp
  qed
qed

lemma int_py_digits:
  assumes "ds \<noteq> []" "list_all is_digit ds"
  shows "int_py ds = Inr (int (nat_of_digits ds))"
    and "int_py (CHR ''-'' # ds) = Inr (- int (nat_of_digits ds))"
proof -
  from assms obtain d ds' where ds: "ds = d # ds'" "is_digit d" by (cases ds) auto
  then have "d \<noteq> CHR ''-''" using minus_not_digit(1) by auto
  then show "int_py ds = Inr (int (nat_of_digits ds))"
    using assms ds by (simp add: int_py_def)
  show "int_py (CHR ''-'' # ds) = Inr (- int (nat_of_digits ds))"
    using assms by (simp add: int_py_def)
qed

lemma nat_of_digits_bound:
  "list_all is_digit ds \<Longrightarrow> foldl (\<lambda>a d. 10 * a + digit_val d) a ds < (a + 1) * 10 ^ length ds"
proof (induction ds arbitrary: a)
  case Nil
  then show ?case by simp
next
  case (Cons d ds)
  then have d9: "digit_val d \<le> 9" by (auto simp: is_digit_def digit_val_def Let_def)
  have "foldl (\<lambda>a d. 10 * a + digit_val d) (10 * a + digit_val d) ds
                   < (10 * a + digit_val d + 1) * 10 ^ length ds"
    using Cons by simp
  also have "\<dots> \<le> ((a + 1) * 10) * 10 ^ length ds"
    using d9 by (intro mult_right_mono) auto
  also have "\<dots> = (a + 1) * 10 ^ length (d # ds)" by (simp add: algebra_simps)
  finally show ?case by simp
qed

lemma nat_of_digits_small:
  assumes "list_all is_digit ds" "length ds \<le> 3"
  shows "nat_of_digits ds \<le> 999"
proof -
  have "nat_of_digits ds < 10 ^ length ds"
    using nat_of_digits_bound[OF assms(1), of 0] by (simp add: nat_of_digits_def)
  also have "(10::nat) ^ length ds \<le> 10 ^ 3" using assms(2) by (intro power_increasing) auto
  finally show ?thesis by simp
qed

lemma digits_here_none: "s = [] \<or> \<not> is_digit (hd s) \<Longrightarrow> digits_here s = None"
  by (cases s) (auto simp: digits_here_def)

lemma match_here_none:
  assumes "\<not> is_digit c" and "c = CHR ''-'' \<longrightarrow> cs = [] \<or> \<not> is_digit (hd cs)"
  shows "match_here prev (c # cs) = None"
  using assms by (auto simp: match_here_def digits_here_none)

lemma search_from_skip:
  assumes "list_all (\<lambda>c. \<not> is_digit c) pre"
    and "pre \<noteq> [] \<and> last pre = CHR ''-'' \<longrightarrow> s = [] \<or> \<not> is_digit (hd s)"
  shows "search_from prev (pre @ s) = search_from (if pre = [] then prev else Some (last pre)) s"
  using assms
proof (induction pre arbitrary: prev)
  case Nil
  then show ?case by simp
next
  case (Cons c pre)
  have "match_here prev (c # pre @ s) = None"
  proof (rule match_here_none)
    show "\<not> is_digit c" using Cons.prems(1) by simp
    show "c = CHR ''-'' \<longrightarrow> pre @ s = [] \<or> \<not> is_digit (hd (pre @ s))"
    proof (cases pre)
      case Nil
      then show ?thesis using Cons.prems(2) by auto
    next
      case (Cons p ps)
      then show ?thesis using Cons.prems(1) by simp
    qed
  qed
  moreover have "search_from (Some c) (pre @ s)
       = search_from (if pre = [] then Some c else Some (last pre)) s"
    using Cons.IH[of "Some c"] Cons.prems by (cases pre) (auto split: if_splits)
  ultimately show ?case by simp
qed

lemma takeWhile_no_digit: "rest = [] \<or> \<not> is_digit (hd rest) \<Longrightarrow> takeWhile is_digit rest = []"
  by (cases rest) auto

lemma takeWhile_digits:
  "list_all is_digit ds \<Longrightarrow> rest = [] \<or> \<not> is_digit (hd rest) \<Longrightarrow>
   takeWhile is_digit (ds @ rest) = ds"
  by (induction ds) (simp_all add: takeWhile_no_digit)

lemma digits_here_token:
  assumes ds: "ds \<noteq> []" "length ds \<le> 3" "list_all is_digit ds"
    and rest: "rest \<noteq> []" "\<not> is_word (hd rest)" and la: "lookahead rest"
  shows "digits_here (ds @ rest) = Some ds"
proof -
  let ?P = "\<lambda>k. k \<le> length (takeWhile is_digit (ds @ rest)) \<and>
               word_boundary (char_at (ds @ rest) (k - 1)) (char_at (ds @ rest) k) \<and>
               lookahead (drop k (ds @ rest))"
  have nd: "\<not> is_digit (hd rest)" using rest(2) digit_is_word by blast
  have tw: "takeWhile is_digit (ds @ rest) = ds" using ds(3) nd by (simp add: takeWhile_digits)
  obtain r rs where r: "rest = r # rs" using rest(1) by (cases rest) auto
  have "(ds @ rest) ! (length ds - 1) = last ds"
    using ds(1) by (simp add: nth_append last_conv_nth)
  moreover have "is_word (last ds)"
    using ds(1,3) digit_is_word by (metis last_in_set list_all_iff)
  moreover have "(ds @ rest) ! length ds = r" using r by simp
  ultimately have here: "?P (length ds)"
    using tw la rest(2) r ds(1) by (simp add: char_at_def word_boundary_def)
  have above: "\<not> ?P k" if "length ds < k" for k using that tw by simp
  have len: "length ds = 1 \<or> length ds = 2 \<or> length ds = 3"
  proof -
    have "0 < length ds" using ds(1) by simp
    with ds(2) show ?thesis by arith
  qed
  have "List.find ?P [3, 2, 1] = Some (length ds)"
    using len
  proof (elim disjE)
    assume l: "length ds = 1"
    then have "\<not> ?P 3" "\<not> ?P 2" "?P 1" using above[of 3] above[of 2] here by simp_all
    then show ?thesis using l by simp
  next
    assume l: "length ds = 2"
    then have "\<not> ?P 3" "?P 2" using above[of 3] here by simp_all
    then show ?thesis using l by simp
  next
    assume l: "length ds = 3"
    then have "?P 3" using here by simp
    then show ?thesis using l by simp
  qed
  then show ?thesis by (simp add: digits_here_def)
qed

lemma match_here_token:
  assumes ds: "ds \<noteq> []" "length ds \<le> 3" "list_all is_digit ds"
    and rest: "rest \<noteq> []" "\<not> is_word (hd rest)" and la: "lookahead rest"
    and prev: "case prev of None \<Rightarrow> True | Some p \<Rightarrow> \<not> is_word p"
  shows "match_here prev (ds @ rest) = Some ds"
proof -
  obtain d ds' where d: "ds = d # ds'" "is_digit d" using ds(1,3) by (cases ds) auto
  then have "is_word d" "d \<noteq> CHR ''-''" using digit_is_word minus_not_digit(1) by auto
  then have "word_boundary prev (char_at (ds @ rest) 0)" "\<not> prefix ''-'' (ds @ rest)"
    using prev d by (auto simp: word_boundary_def char_at_def split: option.splits)
  then show ?thesis
    using digits_here_token[OF ds rest la] by (simp add: match_here_def)
qed

lemma search_from_token:
  assumes ds: "ds \<noteq> []" "length ds \<le> 3" "list_all is_digit ds"
    and rest: "rest \<noteq> []" "\<not> is_word (hd rest)" and la: "lookahead rest"
    and pre: "list_all (\<lambda>c. \<not> is_digit c) pre"
      "pre = [] \<or> (\<not> is_word (last pre) \<and> last pre \<noteq> CHR ''-'')"
  shows "search_from None (pre @ ds @ rest) = Some ds"
proof -
  let ?prev = "if pre = [] then None else Some (last pre)"
  have "search_from None (pre @ ds @ rest) = search_from ?prev (ds @ rest)"
    using pre by (intro search_from_skip) auto
  moreover have "match_here ?prev (ds @ rest) = Some ds"
    using pre(2) by (intro match_here_token[OF ds rest la]) auto
  moreover obtain c cs where "ds @ rest = c # cs" using ds(1) by (cases ds) auto
  ultimately show ?thesis by simp
qed

lemma extract_grade_cases:
  "extract_grade reply_text =
     (case re_search (strip reply_text) of
        Some m \<Rightarrow> int_py m
      | None \<Rightarrow>
          Inl (ValueError (''Could not extract a valid grade from the response: ''
                           @ strip reply_text)))"
  by (simp add: extract_grade_def Let_def)

lemma extract_grade_total:
  "(\<exists>g. extract_grade reply_text = Inr g) \<or>
   extract_grade reply_text =
     Inl (ValueError (''Could not extract a valid grade from the response: '' @ strip reply_text))"
proof (cases "re_search (strip reply_text)")
  case None
  then show ?thesis unfolding extract_grade_cases by simp
next
  case (Some m)
  from search_from_shape[OF Some[unfolded re_search_def]] obtain sgn ds where
    m: "m = sgn @ ds" and sgn: "sgn = [] \<or> sgn = ''-''"
    and ds: "ds \<noteq> []" "list_all is_digit ds" by blast
  have "\<exists>g. int_py m = Inr g"
  proof (cases "sgn = []")
    case True
    then show ?thesis using int_py_digits(1)[OF ds] m by simp
  next
    case False
    with sgn have "m = CHR ''-'' # ds" using m by simp
    then show ?thesis using int_py_digits(2)[OF ds] by simp
  qed
  then show ?thesis unfolding extract_grade_cases Some by simp
qed


lemma extract_grade_token:
  assumes t: "strip reply_text = pre @ ds @ w1 @ ''out'' @ w2 @ ''of'' @ w3 @ ''100'' @ post"
    and ds: "ds \<noteq> []" "length ds \<le> 3" "list_all is_digit ds"
    and w: "w1 \<noteq> []" "list_all is_space (w1 @ w2 @ w3)"
    and pre: "list_all (\<lambda>c. \<not> is_digit c) pre"
      "pre = [] \<or> (\<not> is_word (last pre) \<and> last pre \<noteq> CHR ''-'')"
  shows "extract_grade reply_text = Inr (int (nat_of_digits ds))"
proof -
  let ?rest = "w1 @ ''out'' @ w2 @ ''of'' @ w3 @ ''100'' @ post"
  have la: "lookahead ?rest" using w(2) by (intro lookahead_holds) auto
  obtain c cs where c: "w1 = c # cs" using w(1) by (cases w1) auto
  then have "is_space c" using w(2) by simp
  then have rest: "?rest \<noteq> []" "\<not> is_word (hd ?rest)" using c space_not_word by auto
  have "search_from None (pre @ ds @ ?rest) = Some ds"
    using ds rest la pre by (rule search_from_token)
  then have "re_search (strip reply_text) = Some ds" unfolding re_search_def t .
  then show ?thesis unfolding extract_grade_cases using int_py_digits(1)[OF ds(1,3)] by simp
qed

lemma match_from_0: "match_from prev s 0 = match_here prev s"
  by (simp add: match_from_def)

lemma match_from_Suc: "match_from prev (c # cs) (Suc i) = match_from (Some c) cs i"
  by (cases i) (simp_all add: match_from_def)

lemma pattern_at_match_from: "pattern_at s i = match_from None s i"
  by (simp add: pattern_at_def match_from_def)

text \<open>\<open>re.search\<close> returns the match at the leftmost position that has one, and none when
  no position has one.\<close>

lemma search_from_None_iff:
  "search_from prev s = None \<longleftrightarrow> (\<forall>i\<le>length s. match_from prev s i = None)"
proof (induction s arbitrary: prev)
  case Nil
  then show ?case by (simp add: match_from_0)
next
  case (Cons c cs)
  show ?case
  proof (cases "match_here prev (c # cs)")
    case None
    have "(\<forall>i\<le>length (c # cs). match_from prev (c # cs) i = None)
          \<longleftrightarrow> (\<forall>i\<le>length cs. match_from (Some c) cs i = None)"
    proof
      assume a: "\<forall>i\<le>length (c # cs). match_from prev (c # cs) i = None"
      show "\<forall>i\<le>length cs. match_from (Some c) cs i = None"
      proof (intro allI impI)
        fix i assume "i \<le> length cs"
        then have "match_from prev (c # cs) (Suc i) = None" using a by simp
        then show "match_from (Some c) cs i = None" by (simp add: match_from_Suc)
      qed
    next
      assume a: "\<forall>i\<le>length cs. match_from (Some c) cs i = None"
      show "\<forall>i\<le>length (c # cs). match_from prev (c # cs) i = None"
      proof (intro allI impI)
        fix i assume i: "i \<le> length (c # cs)"
        show "match_from prev (c # cs) i = None"
        proof (cases i)
          case 0
          then show ?thesis using None by (simp add: match_from_0)
        next
          case (Suc k)
          then show ?thesis using a i by (simp add: match_from_Suc)
        qed
      qed
    qed
    moreover have "search_from prev (c # cs) = search_from (Some c) cs" using None by simp
    ultimately show ?thesis using Cons.IH[of "Some c"] by (simp only:)
  next
    case (Some m)
    then have "match_from prev (c # cs) 0 \<noteq> None" by (simp add: match_from_0)
    then have "\<not> (\<forall>i\<le>length (c # cs). match_from prev (c # cs) i = None)"
      by (meson le0)
    moreover have "search_from prev (c # cs) \<noteq> None" using Some by simp
    ultimately show ?thesis by (simp only:)
  qed
qed

lemma search_from_leftmost:
  "search_from prev s = Some m \<longleftrightarrow>
   (\<exists>i\<le>length s. match_from prev s i = Some m \<and> (\<forall>j<i. match_from prev s j = None))"
proof (induction s arbitrary: prev)
  case Nil
  then show ?case by (simp add: match_from_0)
next
  case (Cons c cs)
  show ?case
  proof (cases "match_here prev (c # cs)")
    case (Some m')
    have "(\<exists>i\<le>length (c # cs). match_from prev (c # cs) i = Some m \<and>
             (\<forall>j<i. match_from prev (c # cs) j = None)) \<longleftrightarrow> m' = m"
    proof
      assume "\<exists>i\<le>length (c # cs). match_from prev (c # cs) i = Some m \<and>
             (\<forall>j<i. match_from prev (c # cs) j = None)"
      then obtain i where i: "match_from prev (c # cs) i = Some m"
        "\<forall>j<i. match_from prev (c # cs) j = None" by blast
      have "i = 0"
      proof (rule ccontr)
        assume "i \<noteq> 0"
        then have "match_from prev (c # cs) 0 = None" using i(2) by simp
        then show False using Some by (simp add: match_from_0)
      qed
      then show "m' = m" using i(1) Some by (simp add: match_from_0)
    next
      assume "m' = m"
      then have "match_from prev (c # cs) 0 = Some m" using Some by (simp add: match_from_0)
      then show "\<exists>i\<le>length (c # cs). match_from prev (c # cs) i = Some m \<and>
             (\<forall>j<i. match_from prev (c # cs) j = None)"
        by (intro exI[of _ 0]) (simp only: le0 not_less_zero, simp)
    qed
    moreover have "search_from prev (c # cs) = Some m \<longleftrightarrow> m' = m" using Some by simp
    ultimately show ?thesis by (simp only:)
  next
    case None
    have "(\<exists>i\<le>length (c # cs). match_from prev (c # cs) i = Some m \<and>
             (\<forall>j<i. match_from prev (c # cs) j = None))
          \<longleftrightarrow> (\<exists>i\<le>length cs. match_from (Some c) cs i = Some m \<and>
             (\<forall>j<i. match_from (Some c) cs j = None))"
    proof
      assume "\<exists>i\<le>length (c # cs). match_from prev (c # cs) i = Some m \<and>
             (\<forall>j<i. match_from prev (c # cs) j = None)"
      then obtain i where i: "i \<le> length (c # cs)" "match_from prev (c # cs) i = Some m"
        "\<forall>j<i. match_from prev (c # cs) j = None" by blast
      have "i \<noteq> 0"
      proof
        assume "i = 0"
        then show False using i(2) None by (simp add: match_from_0)
      qed
      then obtain k where k: "i = Suc k" by (cases i) auto
      have "match_from (Some c) cs k = Some m" using i(2) k by (simp add: match_from_Suc)
      moreover have "\<forall>j<k. match_from (Some c) cs j = None"
      proof (intro allI impI)
        fix j assume "j < k"
        then have "match_from prev (c # cs) (Suc j) = None" using i(3) k by simp
        then show "match_from (Some c) cs j = None" by (simp add: match_from_Suc)
      qed
      moreover have "k \<le> length cs" using i(1) k by simp
      ultimately show "\<exists>i\<le>length cs. match_from (Some c) cs i = Some m \<and>
             (\<forall>j<i. match_from (Some c) cs j = None)" by blast
    next
      assume "\<exists>i\<le>length cs. match_from (Some c) cs i = Some m \<and>
             (\<forall>j<i. match_from (Some c) cs j = None)"
      then obtain k where k: "k \<le> length cs" "match_from (Some c) cs k = Some m"
        "\<forall>j<k. match_from (Some c) cs j = None" by blast
      have "match_from prev (c # cs) (Suc k) = Some m" using k(2) by (simp add: match_from_Suc)
      moreover have "\<forall>j<Suc k. match_from prev (c # cs) j = None"
      proof (intro allI impI)
        fix j assume j: "j < Suc k"
        show "match_from prev (c # cs) j = None"
        proof (cases j)
          case 0
          then show ?thesis using None by (simp add: match_from_0)
        next
          case (Suc j')
          then show ?thesis using k(3) j by (simp add: match_from_Suc)
        qed
      qed
      moreover have "Suc k \<le> length (c # cs)" using k(1) by simp
      ultimately show "\<exists>i\<le>length (c # cs). match_from prev (c # cs) i = Some m \<and>
             (\<forall>j<i. match_from prev (c # cs) j = None)" by blast
    qed
    moreover have "search_from prev (c # cs) = search_from (Some c) cs" using None by simp
    ultimately show ?thesis using Cons.IH[of "Some c"] by (simp only:)
  qed
qed

lemma lookahead_nonempty: "lookahead rest \<Longrightarrow> rest \<noteq> []"
  by (auto simp: lookahead_def Let_def)

text \<open>The digits matched end at a word boundary: a non-word character follows them.\<close>

lemma digits_here_boundary:
  assumes "digits_here s = Some m"
  shows "\<exists>rest. s = m @ rest \<and> rest \<noteq> [] \<and> \<not> is_word (hd rest) \<and> lookahead rest"
proof -
  from assms obtain k where
    k: "List.find (\<lambda>k. k \<le> length (takeWhile is_digit s) \<and>
               word_boundary (char_at s (k - 1)) (char_at s k) \<and> lookahead (drop k s))
          [3, 2, 1] = Some k" and m: "m = take k s"
    by (auto simp: digits_here_def)
  from k have k0: "0 < k"
    and le: "k \<le> length (takeWhile is_digit s)"
    and wb: "word_boundary (char_at s (k - 1)) (char_at s k)"
    and la: "lookahead (drop k s)"
    by (auto split: if_splits)
  have "k - 1 < length (takeWhile is_digit s)" using k0 le by simp
  then have d: "is_digit (takeWhile is_digit s ! (k - 1))" "takeWhile is_digit s ! (k - 1) = s ! (k - 1)"
    by (metis nth_mem set_takeWhileD, simp add: takeWhile_nth)
  have ls: "length (takeWhile is_digit s) \<le> length s" by (rule length_takeWhile_le)
  then have "k - 1 < length s" using k0 le by simp
  then have "char_at s (k - 1) = Some (s ! (k - 1))" by (simp add: char_at_def)
  moreover have "is_word (s ! (k - 1))" using d digit_is_word by simp
  ultimately have nw: "\<not> (case char_at s k of None \<Rightarrow> False | Some c \<Rightarrow> is_word c)"
    using wb by (simp add: word_boundary_def)
  have ne: "drop k s \<noteq> []" using la by (rule lookahead_nonempty)
  then have "k < length s" by simp
  then have "char_at s k = Some (hd (drop k s))" by (simp add: char_at_def hd_drop_conv_nth)
  with nw have "\<not> is_word (hd (drop k s))" by simp
  moreover have "s = m @ drop k s" using m by simp
  ultimately show ?thesis using ne la by blast
qed

lemma lookahead_after_token:
  assumes "lookahead rest" and "\<not> is_word (hd rest)"
  shows "\<exists>w1 w2 w3 post. rest = w1 @ ''out'' @ w2 @ ''of'' @ w3 @ ''100'' @ post \<and>
           w1 \<noteq> [] \<and> list_all is_space (w1 @ w2 @ w3)"
proof -
  from lookahead_shape[OF assms(1)] obtain w1 w2 w3 post where
    r: "rest = w1 @ ''out'' @ w2 @ ''of'' @ w3 @ ''100'' @ post"
    and s: "list_all is_space w1" "list_all is_space w2" "list_all is_space w3" by blast
  have "w1 \<noteq> []"
  proof
    assume "w1 = []"
    then have "hd rest = CHR ''o''" using r by simp
    then show False using assms(2) by (simp add: is_word_def)
  qed
  then show ?thesis using r s by (intro exI[of _ w1] exI[of _ w2] exI[of _ w3] exI[of _ post]) simp
qed

text \<open>The pattern at a position that does not start with a minus sign and a digit.\<close>

lemma match_here_unsigned:
  assumes ns: "\<not> (\<exists>d r. s = CHR ''-'' # d # r \<and> is_digit d)"
  shows "match_here prev s = Some m \<longleftrightarrow>
         (case prev of None \<Rightarrow> True | Some p \<Rightarrow> \<not> is_word p) \<and>
         m \<noteq> [] \<and> length m \<le> 3 \<and> list_all is_digit m \<and>
         (\<exists>w1 w2 w3 post. s = m @ w1 @ ''out'' @ w2 @ ''of'' @ w3 @ ''100'' @ post \<and>
            w1 \<noteq> [] \<and> list_all is_space (w1 @ w2 @ w3))"
    (is "?L \<longleftrightarrow> ?R")
proof
  assume L: ?L
  have minus_path: "digits_here (tl s) = None" if "prefix ''-'' s"
  proof -
    from that obtain t where t: "s = CHR ''-'' # t" by (cases s) auto
    have "t = [] \<or> \<not> is_digit (hd t)" using ns t by (cases t) auto
    then show ?thesis using t by (simp add: digits_here_none)
  qed
  have dh: "digits_here s = Some m"
    using L minus_path by (auto simp: match_here_def split: if_splits option.splits)
  have wb: "word_boundary prev (char_at s 0)"
    using L by (auto simp: match_here_def split: if_splits)
  from digits_here_shape[OF dh] obtain rest0 where
    m: "m \<noteq> []" "length m \<le> 3" "list_all is_digit m" and s0: "s = m @ rest0" by blast
  from digits_here_boundary[OF dh] obtain rest where
    r: "s = m @ rest" "rest \<noteq> []" "\<not> is_word (hd rest)" "lookahead rest" by blast
  obtain d m' where d: "m = d # m'" "is_digit d" using m(1,3) by (cases m) auto
  then have "char_at s 0 = Some d" "is_word d" using r(1) digit_is_word by (auto simp: char_at_def)
  then have p: "case prev of None \<Rightarrow> True | Some p \<Rightarrow> \<not> is_word p"
    using wb by (auto simp: word_boundary_def split: option.splits)
  from lookahead_after_token[OF r(4) r(3)] obtain w1 w2 w3 post where
    "rest = w1 @ ''out'' @ w2 @ ''of'' @ w3 @ ''100'' @ post"
    "w1 \<noteq> []" "list_all is_space (w1 @ w2 @ w3)" by blast
  then have "\<exists>w1 w2 w3 post. s = m @ w1 @ ''out'' @ w2 @ ''of'' @ w3 @ ''100'' @ post \<and>
            w1 \<noteq> [] \<and> list_all is_space (w1 @ w2 @ w3)"
    using r(1) by blast
  then show ?R using p m by blast
next
  assume R: ?R
  then obtain w1 w2 w3 post where
    s: "s = m @ w1 @ ''out'' @ w2 @ ''of'' @ w3 @ ''100'' @ post"
    and w: "w1 \<noteq> []" "list_all is_space (w1 @ w2 @ w3)"
    and m: "m \<noteq> []" "length m \<le> 3" "list_all is_digit m"
    and p: "case prev of None \<Rightarrow> True | Some p \<Rightarrow> \<not> is_word p"
    by blast
  let ?rest = "w1 @ ''out'' @ w2 @ ''of'' @ w3 @ ''100'' @ post"
  have la: "lookahead ?rest" using w(2) by (intro lookahead_holds) auto
  obtain c cs where c: "w1 = c # cs" using w(1) by (cases w1) auto
  then have "is_space c" using w(2) by simp
  then have rest: "?rest \<noteq> []" "\<not> is_word (hd ?rest)" using c space_not_word by auto
  show ?L unfolding s using m rest la p by (rule match_here_token)
qed

lemma pattern_at_unsigned:
  assumes "\<not> signed_at s i"
  shows "pattern_at s i = Some m \<longleftrightarrow> unsigned_token s i m"
proof -
  have ns: "\<not> (\<exists>d r. drop i s = CHR ''-'' # d # r \<and> is_digit d)"
    using assms by (auto simp: signed_at_def)
  show ?thesis
    unfolding pattern_at_def unsigned_token_def match_here_unsigned[OF ns]
    by (cases "i = 0") auto
qed

lemma unsigned_token_grade:
  "unsigned_token s i ds \<Longrightarrow> int_py ds = Inr (int (nat_of_digits ds))"
  by (simp add: unsigned_token_def int_py_digits(1))

lemma re_search_leftmost:
  "re_search s = Some m \<longleftrightarrow>
   (\<exists>i\<le>length s. pattern_at s i = Some m \<and> (\<forall>j<i. pattern_at s j = None))"
  unfolding re_search_def pattern_at_match_from by (rule search_from_leftmost)

lemma re_search_None:
  "re_search s = None \<longleftrightarrow> (\<forall>i\<le>length s. pattern_at s i = None)"
  unfolding re_search_def pattern_at_match_from by (rule search_from_None_iff)

lemma re_search_int:
  assumes "re_search s = Some m"
  shows "\<exists>g. int_py m = Inr g"
proof -
  from search_from_shape[OF assms[unfolded re_search_def]] obtain sgn ds where
    m: "m = sgn @ ds" and sgn: "sgn = [] \<or> sgn = ''-''"
    and ds: "ds \<noteq> []" "list_all is_digit ds" by blast
  show ?thesis
  proof (cases "sgn = []")
    case True
    then show ?thesis using int_py_digits(1)[OF ds] m by simp
  next
    case False
    with sgn have "m = CHR ''-'' # ds" using m by simp
    then show ?thesis using int_py_digits(2)[OF ds] by simp
  qed
qed

lemma extract_grade_leftmost:
  "extract_grade reply_text = Inr g \<longleftrightarrow>
   (\<exists>i m. i \<le> length (strip reply_text) \<and> pattern_at (strip reply_text) i = Some m \<and>
      (\<forall>j<i. pattern_at (strip reply_text) j = None) \<and> int_py m = Inr g)"
proof -
  have "extract_grade reply_text = Inr g \<longleftrightarrow>
        (\<exists>m. re_search (strip reply_text) = Some m \<and> int_py m = Inr g)"
    unfolding extract_grade_cases by (cases "re_search (strip reply_text)") auto
  then show ?thesis unfolding re_search_leftmost by blast
qed

lemma extract_grade_fails:
  "extract_grade reply_text =
     Inl (ValueError (''Could not extract a valid grade from the response: '' @ strip reply_text))
   \<longleftrightarrow> (\<forall>i\<le>length (strip reply_text). pattern_at (strip reply_text) i = None)"
proof -
  have "extract_grade reply_text =
     Inl (ValueError (''Could not extract a valid grade from the response: '' @ strip reply_text))
     \<longleftrightarrow> re_search (strip reply_text) = None"
  proof (cases "re_search (strip reply_text)")
    case None
    then show ?thesis unfolding extract_grade_cases by simp
  next
    case (Some m)
    from re_search_int[OF Some] obtain g where "int_py m = Inr g" by blast
    then show ?thesis unfolding extract_grade_cases Some by simp
  qed
  then show ?thesis unfolding re_search_None .
qed

lemma match_here_token_shape:
  assumes "match_here prev s = Some m"
  shows "\<exists>sgn ds w1 w2 w3 post.
           s = sgn @ ds @ w1 @ ''out'' @ w2 @ ''of'' @ w3 @ ''100'' @ post \<and> m = sgn @ ds \<and>
           (sgn = [] \<or> sgn = ''-'') \<and> ds \<noteq> [] \<and> length ds \<le> 3 \<and> list_all is_digit ds \<and>
           w1 \<noteq> [] \<and> list_all is_space (w1 @ w2 @ w3)"
proof -
  have tok: "\<exists>w1 w2 w3 post.
           t = ds @ w1 @ ''out'' @ w2 @ ''of'' @ w3 @ ''100'' @ post \<and>
           ds \<noteq> [] \<and> length ds \<le> 3 \<and> list_all is_digit ds \<and>
           w1 \<noteq> [] \<and> list_all is_space (w1 @ w2 @ w3)" if dh: "digits_here t = Some ds" for t ds
  proof -
    from digits_here_shape[OF dh] have d: "ds \<noteq> []" "length ds \<le> 3" "list_all is_digit ds"
      by blast+
    from digits_here_boundary[OF dh] obtain rest where
      r: "t = ds @ rest" "\<not> is_word (hd rest)" "lookahead rest" by blast
    from lookahead_after_token[OF r(3) r(2)] obtain w1 w2 w3 post where
      "rest = w1 @ ''out'' @ w2 @ ''of'' @ w3 @ ''100'' @ post"
      "w1 \<noteq> []" "list_all is_space (w1 @ w2 @ w3)" by blast
    then show ?thesis using d r(1) by blast
  qed
  show ?thesis
  proof (cases "prefix ''-'' s \<and> digits_here (tl s) \<noteq> None")
    case True
    then obtain ds where ds: "digits_here (tl s) = Some ds" by auto
    with assms True have m: "m = ''-'' @ ds" by (auto simp: match_here_def split: if_splits)
    from True obtain t where s: "s = ''-'' @ t" "tl s = t" by (cases s) auto
    from tok[OF ds] obtain w1 w2 w3 post where
      "tl s = ds @ w1 @ ''out'' @ w2 @ ''of'' @ w3 @ ''100'' @ post \<and>
           ds \<noteq> [] \<and> length ds \<le> 3 \<and> list_all is_digit ds \<and>
           w1 \<noteq> [] \<and> list_all is_space (w1 @ w2 @ w3)" by blast
    then have "s = ''-'' @ ds @ w1 @ ''out'' @ w2 @ ''of'' @ w3 @ ''100'' @ post \<and> m = ''-'' @ ds \<and>
           (''-'' = [] \<or> ''-'' = ''-'') \<and> ds \<noteq> [] \<and> length ds \<le> 3 \<and> list_all is_digit ds \<and>
           w1 \<noteq> [] \<and> list_all is_space (w1 @ w2 @ w3)"
      using s m by simp
    then show ?thesis by - (rule exI[of _ "''-''"], blast)
  next
    case False
    with assms have "digits_here s = Some m"
      by (auto simp: match_here_def split: if_splits option.splits)
    from tok[OF this] obtain w1 w2 w3 post where
      "s = m @ w1 @ ''out'' @ w2 @ ''of'' @ w3 @ ''100'' @ post \<and>
           m \<noteq> [] \<and> length m \<le> 3 \<and> list_all is_digit m \<and>
           w1 \<noteq> [] \<and> list_all is_space (w1 @ w2 @ w3)" by blast
    then have "s = [] @ m @ w1 @ ''out'' @ w2 @ ''of'' @ w3 @ ''100'' @ post \<and> m = [] @ m \<and>
           (([] :: string) = [] \<or> [] = ''-'') \<and> m \<noteq> [] \<and> length m \<le> 3 \<and> list_all is_digit m \<and>
           w1 \<noteq> [] \<and> list_all is_space (w1 @ w2 @ w3)"
      by simp
    then show ?thesis by - (rule exI[of _ "[]"], blast)
  qed
qed

lemma extract_grade_sound_token:
  assumes "extract_grade reply_text = Inr g"
  shows "\<exists>pre sgn ds w1 w2 w3 post.
           strip reply_text = pre @ sgn @ ds @ w1 @ ''out'' @ w2 @ ''of'' @ w3 @ ''100'' @ post \<and>
           (sgn = [] \<or> sgn = ''-'') \<and> ds \<noteq> [] \<and> length ds \<le> 3 \<and> list_all is_digit ds \<and>
           w1 \<noteq> [] \<and> list_all is_space (w1 @ w2 @ w3) \<and>
           g = (if sgn = [] then int (nat_of_digits ds) else - int (nat_of_digits ds)) \<and>
           - 999 \<le> g \<and> g \<le> 999"
proof -
  from assms obtain i m where
    i: "pattern_at (strip reply_text) i = Some m" and g0: "int_py m = Inr g"
    unfolding extract_grade_leftmost by blast
  from match_here_token_shape[OF i[unfolded pattern_at_def]] obtain sgn ds w1 w2 w3 post where
    d: "drop i (strip reply_text) = sgn @ ds @ w1 @ ''out'' @ w2 @ ''of'' @ w3 @ ''100'' @ post"
    and m: "m = sgn @ ds" and sgn: "sgn = [] \<or> sgn = ''-''"
    and ds: "ds \<noteq> []" "length ds \<le> 3" "list_all is_digit ds"
    and w: "w1 \<noteq> []" "list_all is_space (w1 @ w2 @ w3)" by blast
  have st: "strip reply_text
      = take i (strip reply_text) @ sgn @ ds @ w1 @ ''out'' @ w2 @ ''of'' @ w3 @ ''100'' @ post"
    using d by (metis append_take_drop_id)
  have g: "g = (if sgn = [] then int (nat_of_digits ds) else - int (nat_of_digits ds))"
  proof (cases "sgn = []")
    case True
    then show ?thesis using g0 m int_py_digits(1)[OF ds(1,3)] by simp
  next
    case False
    with sgn have "m = CHR ''-'' # ds" using m by simp
    then show ?thesis using g0 False int_py_digits(2)[OF ds(1,3)] by simp
  qed
  have "nat_of_digits ds \<le> 999" using ds(2,3) by (simp add: nat_of_digits_small)
  then have b: "- 999 \<le> g" "g \<le> 999" using g by (auto split: if_splits)
  show ?thesis
    by (rule exI[of _ "take i (strip reply_text)"], rule exI[of _ sgn], rule exI[of _ ds],
        rule exI[of _ w1], rule exI[of _ w2], rule exI[of _ w3], rule exI[of _ post])
       (use st sgn ds w g b in blast)
qed

text \<open>
  C1, as the code has it. The extractor trims the text and either returns a grade or
  raises \<open>ValueError\<close> with the trimmed text. The grade is that of the match at the leftmost
  position at which the pattern matches; \<open>ValueError\<close> is raised exactly when it matches at
  no position. At a position that does not start with a minus sign and a digit, the
  pattern matches exactly a run of one to three digits that starts there, is not preceded
  by a word character, and is followed by whitespace and then \<open>out\<close>, \<open>of\<close> and \<open>100\<close> with
  any whitespace, or none, between them; the grade of such a match is the value of the
  run, never clamped. Every grade returned is the value of such a run or its negation,
  the latter only when a minus sign stands directly before the run; it lies between -999
  and 999. In particular, when the first digits of the trimmed text are such a run and
  neither a word character nor a minus sign precedes it, its value is returned.
\<close>

theorem extract_grade_spec:
  "((\<exists>g. extract_grade reply_text = Inr g) \<or>
    extract_grade reply_text =
      Inl (ValueError (''Could not extract a valid grade from the response: '' @ strip reply_text))) \<and>
   (\<forall>g. extract_grade reply_text = Inr g \<longrightarrow>
      (\<exists>pre sgn ds w1 w2 w3 post.
         strip reply_text = pre @ sgn @ ds @ w1 @ ''out'' @ w2 @ ''of'' @ w3 @ ''100'' @ post \<and>
         (sgn = [] \<or> sgn = ''-'') \<and> ds \<noteq> [] \<and> length ds \<le> 3 \<and> list_all is_digit ds \<and>
         w1 \<noteq> [] \<and> list_all is_space (w1 @ w2 @ w3) \<and>
         g = (if sgn = [] then int (nat_of_digits ds) else - int (nat_of_digits ds)) \<and>
         - 999 \<le> g \<and> g \<le> 999)) \<and>
   (\<forall>pre ds w1 w2 w3 post.
      strip reply_text = pre @ ds @ w1 @ ''out'' @ w2 @ ''of'' @ w3 @ ''100'' @ post \<and>
      ds \<noteq> [] \<and> length ds \<le> 3 \<and> list_all is_digit ds \<and>
      w1 \<noteq> [] \<and> list_all is_space (w1 @ w2 @ w3) \<and>
      list_all (\<lambda>c. \<not> is_digit c) pre \<and>
      (pre = [] \<or> (\<not> is_word (last pre) \<and> last pre \<noteq> CHR ''-'')) \<longrightarrow>
      extract_grade reply_text = Inr (int (nat_of_digits ds))) \<and>
   (\<forall>g. extract_grade reply_text = Inr g \<longleftrightarrow>
      (\<exists>i m. i \<le> length (strip reply_text) \<and> pattern_at (strip reply_text) i = Some m \<and>
         (\<forall>j<i. pattern_at (strip reply_text) j = None) \<and> int_py m = Inr g)) \<and>
   (extract_grade reply_text =
      Inl (ValueError (''Could not extract a valid grade from the response: '' @ strip reply_text))
    \<longleftrightarrow> (\<forall>i\<le>length (strip reply_text). pattern_at (strip reply_text) i = None)) \<and>
   (\<forall>s i m. \<not> signed_at s i \<longrightarrow> (pattern_at s i = Some m \<longleftrightarrow> unsigned_token s i m)) \<and>
   (\<forall>s i ds. unsigned_token s i ds \<longrightarrow> int_py ds = Inr (int (nat_of_digits ds)))"
proof (intro conjI)
  show "(\<exists>g. extract_grade reply_text = Inr g) \<or>
    extract_grade reply_text =
      Inl (ValueError (''Could not extract a valid grade from the response: '' @ strip reply_text))"
    by (rule extract_grade_total)
  show "\<forall>g. extract_grade reply_text = Inr g \<longrightarrow>
      (\<exists>pre sgn ds w1 w2 w3 post.
         strip reply_text = pre @ sgn @ ds @ w1 @ ''out'' @ w2 @ ''of'' @ w3 @ ''100'' @ post \<and>
         (sgn = [] \<or> sgn = ''-'') \<and> ds \<noteq> [] \<and> length ds \<le> 3 \<and> list_all is_digit ds \<and>
         w1 \<noteq> [] \<and> list_all is_space (w1 @ w2 @ w3) \<and>
         g = (if sgn = [] then int (nat_of_digits ds) else - int (nat_of_digits ds)) \<and>
         - 999 \<le> g \<and> g \<le> 999)"
    using extract_grade_sound_token by blast
  show "\<forall>pre ds w1 w2 w3 post.
      strip reply_text = pre @ ds @ w1 @ ''out'' @ w2 @ ''of'' @ w3 @ ''100'' @ post \<and>
      ds \<noteq> [] \<and> length ds \<le> 3 \<and> list_all is_digit ds \<and>
      w1 \<noteq> [] \<and> list_all is_space (w1 @ w2 @ w3) \<and>
      list_all (\<lambda>c. \<not> is_digit c) pre \<and>
      (pre = [] \<or> (\<not> is_word (last pre) \<and> last pre \<noteq> CHR ''-'')) \<longrightarrow>
      extract_grade reply_text = Inr (int (nat_of_digits ds))"
  proof (intro allI, rule impI)
    fix pre ds w1 w2 w3 post
    assume a: "strip reply_text = pre @ ds @ w1 @ ''out'' @ w2 @ ''of'' @ w3 @ ''100'' @ post \<and>
      ds \<noteq> [] \<and> length ds \<le> 3 \<and> list_all is_digit ds \<and>
      w1 \<noteq> [] \<and> list_all is_space (w1 @ w2 @ w3) \<and>
      list_all (\<lambda>c. \<not> is_digit c) pre \<and>
      (pre = [] \<or> (\<not> is_word (last pre) \<and> last pre \<noteq> CHR ''-''))"
    show "extract_grade reply_text = Inr (int (nat_of_digits ds))"
      by (rule extract_grade_token[of reply_text pre ds w1 w2 w3 post]) (use a in blast)+
  qed
  show "\<forall>g. extract_grade reply_text = Inr g \<longleftrightarrow>
      (\<exists>i m. i \<le> length (strip reply_text) \<and> pattern_at (strip reply_text) i = Some m \<and>
         (\<forall>j<i. pattern_at (strip reply_text) j = None) \<and> int_py m = Inr g)"
    using extract_grade_leftmost by blast
  show "extract_grade reply_text =
      Inl (ValueError (''Could not extract a valid grade from the response: '' @ strip reply_text))
    \<longleftrightarrow> (\<forall>i\<le>length (strip reply_text). pattern_at (strip reply_text) i = None)"
    by (rule extract_grade_fails)
  show "\<forall>s i m. \<not> signed_at s i \<longrightarrow> (pattern_at s i = Some m \<longleftrightarrow> unsigned_token s i m)"
    using pattern_at_unsigned by blast
  show "\<forall>s i ds. unsigned_token s i ds \<longrightarrow> int_py ds = Inr (int (nat_of_digits ds))"
    using unsigned_token_grade by blast
qed

lemma llama_grade: "extract_grade ''Llama3 says 85 out of 100'' = Inr 85"
  by code_simp

lemma llama_strip: "strip ''Llama3 says 85 out of 100'' = ''Llama3 says 85 out of 100''"
  by code_simp

text \<open>\<open>250 out of 100\<close> yields 250; in \<open>Llama3 says 85 out of 100\<close> the digit 3 starts no
  match and the grade is that of the match at position 12.\<close>

theorem extract_grade_spec_witness:
  "extract_grade ''Grade: 250 out of 100.'' = Inr 250 \<and>
   (\<exists>pre sgn ds w1 w2 w3 post.
      strip ''Grade: 250 out of 100.''
        = pre @ sgn @ ds @ w1 @ ''out'' @ w2 @ ''of'' @ w3 @ ''100'' @ post \<and>
      (sgn = [] \<or> sgn = ''-'') \<and> ds \<noteq> [] \<and> length ds \<le> 3 \<and> list_all is_digit ds \<and>
      w1 \<noteq> [] \<and> list_all is_space (w1 @ w2 @ w3) \<and>
      (250 :: int) = (if sgn = [] then int (nat_of_digits ds) else - int (nat_of_digits ds)) \<and>
      - 999 \<le> (250 :: int) \<and> (250 :: int) \<le> 999) \<and>
   extract_grade ''Llama3 says 85 out of 100'' = Inr 85 \<and>
   (\<exists>i m. i \<le> length ''Llama3 says 85 out of 100'' \<and>
      pattern_at ''Llama3 says 85 out of 100'' i = Some m \<and>
      (\<forall>j<i. pattern_at ''Llama3 says 85 out of 100'' j = None) \<and> int_py m = Inr 85) \<and>
   unsigned_token ''Llama3 says 85 out of 100'' 12 ''85'' \<and>
   pattern_at ''Llama3 says 85 out of 100'' 12 = Some ''85'' \<and>
   int_py ''85'' = Inr 85"
proof -
  note spec = extract_grade_spec[of "''Grade: 250 out of 100.''"]
  note llama = extract_grade_spec[of "''Llama3 says 85 out of 100''"]
  have tok: "strip ''Grade: 250 out of 100.''
        = ''Grade: '' @ ''250'' @ '' '' @ ''out'' @ '' '' @ ''of'' @ '' '' @ ''100'' @ ''.'' \<and>
      ''250'' \<noteq> [] \<and> length ''250'' \<le> 3 \<and> list_all is_digit ''250'' \<and>
      '' '' \<noteq> [] \<and> list_all is_space ('' '' @ '' '' @ '' '') \<and>
      list_all (\<lambda>c. \<not> is_digit c) ''Grade: '' \<and>
      (''Grade: '' = [] \<or> (\<not> is_word (last ''Grade: '') \<and> last ''Grade: '' \<noteq> CHR ''-''))"
    by (simp add: strip_def is_space_def is_digit_def is_word_def)
  have "extract_grade ''Grade: 250 out of 100.'' = Inr (int (nat_of_digits ''250''))"
    by (rule spec[THEN conjunct2, THEN conjunct2, THEN conjunct1, rule_format,
          of "''Grade: ''" "''250''" "'' ''" "'' ''" "'' ''" "''.''"]) (rule tok)
  then have g: "extract_grade ''Grade: 250 out of 100.'' = Inr 250"
    by (simp add: nat_of_digits_def digit_val_def)
  note sound = spec[THEN conjunct2, THEN conjunct1, rule_format, OF g]
  have left: "\<exists>i m. i \<le> length ''Llama3 says 85 out of 100'' \<and>
      pattern_at ''Llama3 says 85 out of 100'' i = Some m \<and>
      (\<forall>j<i. pattern_at ''Llama3 says 85 out of 100'' j = None) \<and> int_py m = Inr 85"
    using llama[THEN conjunct2, THEN conjunct2, THEN conjunct2, THEN conjunct1, rule_format,
        of 85, THEN iffD1, OF llama_grade]
    unfolding llama_strip .
  have ns: "\<not> signed_at ''Llama3 says 85 out of 100'' 12"
    by (simp add: signed_at_def)
  have "drop 12 ''Llama3 says 85 out of 100''
           = ''85'' @ '' '' @ ''out'' @ '' '' @ ''of'' @ '' '' @ ''100'' @ [] \<and>
         '' '' \<noteq> [] \<and> list_all is_space ('' '' @ '' '' @ '' '')"
    by (simp add: is_space_def)
  then have ex: "\<exists>w1 w2 w3 post. drop 12 ''Llama3 says 85 out of 100''
           = ''85'' @ w1 @ ''out'' @ w2 @ ''of'' @ w3 @ ''100'' @ post \<and>
         w1 \<noteq> [] \<and> list_all is_space (w1 @ w2 @ w3)"
    by blast
  have ut: "unsigned_token ''Llama3 says 85 out of 100'' 12 ''85''"
    unfolding unsigned_token_def using ex by (simp add: is_digit_def is_word_def)
  have pa: "pattern_at ''Llama3 says 85 out of 100'' 12 = Some ''85''"
    using llama[THEN conjunct2, THEN conjunct2, THEN conjunct2, THEN conjunct2, THEN conjunct2,
        THEN conjunct1, rule_format, OF ns, of "''85''"] ut by blast
  have "int_py ''85'' = Inr (int (nat_of_digits ''85''))"
    by (rule llama[THEN conjunct2, THEN conjunct2, THEN conjunct2, THEN conjunct2, THEN conjunct2,
        THEN conjunct2, rule_format, OF ut])
  then have ip: "int_py ''85'' = Inr 85" by (simp add: nat_of_digits_def digit_val_def)
  show ?thesis using g sound llama_grade left ut pa ip by (intro conjI)
qed

text \<open>
  C1 as stated fails in three ways that follow from the pattern: a text without
  \<open>out of 100\<close> yields a grade, because whitespace between the words is optional; a number
  that continues a word is not extracted; and of two grades the first is returned.
\<close>

theorem extract_grade_by_design:
  "\<not> sublist ''out of 100'' ''7 outof100'' \<and> extract_grade ''7 outof100'' = Inr 7 \<and>
   sublist ''5 out of 100'' ''x5 out of 100'' \<and>
   extract_grade ''x5 out of 100''
     = Inl (ValueError ''Could not extract a valid grade from the response: x5 out of 100'') \<and>
   sublist ''7 out of 100'' ''3 out of 100, 7 out of 100'' \<and>
   extract_grade ''3 out of 100, 7 out of 100'' = Inr 3"
proof (intro conjI)
  show "\<not> sublist ''out of 100'' ''7 outof100''" by (simp add: sublist_Cons_right)
  show "sublist ''5 out of 100'' ''x5 out of 100''" by (simp add: sublist_Cons_right)
  show "sublist ''7 out of 100'' ''3 out of 100, 7 out of 100''"
    by (simp add: sublist_Cons_right)
  show "extract_grade ''7 outof100'' = Inr 7" by code_simp
  show "extract_grade ''x5 out of 100''
     = Inl (ValueError ''Could not extract a valid grade from the response: x5 out of 100'')"
    by code_simp
  show "extract_grade ''3 out of 100, 7 out of 100'' = Inr 3" by code_simp
qed

text \<open>
  The minus sign. \<open>\b\<close> in front of \<open>-?\<close> holds only when a word character precedes the
  minus sign, so a negative grade at the start of the text or after a space or a colon
  is returned without its sign; it keeps the sign after a word character.
\<close>

lemma extract_grade_sign_lost:
  "extract_grade ''-50 out of 100'' = Inr 50 \<and>
   extract_grade ''Grade: -50 out of 100'' = Inr 50 \<and>
   extract_grade ''grade-50 out of 100'' = Inr (- 50)"
  by code_simp

section \<open>Properties: the calls of a run\<close>

lemma all_good_Nil: "all_good env []"
  by (simp add: all_good_def)

lemma all_good_snoc:
  "all_good env (cs @ [req]) \<longleftrightarrow> all_good env cs \<and> good_call env (length cs) req"
  by (simp add: all_good_def enumerate_append_eq)

lemma all_good_nth: "all_good env cs \<Longrightarrow> k < length cs \<Longrightarrow> good_call env k (cs ! k)"
proof (induction cs arbitrary: k rule: rev_induct)
  case Nil
  then show ?case by simp
next
  case (snoc x xs)
  then show ?case by (cases "k < length xs") (auto simp: all_good_snoc nth_append less_Suc_eq)
qed

lemma world_fields:
  "calls (log_info m w) = calls w" "ticks (log_info m w) = ticks w"
  "stdout (log_info m w) = stdout w" "response_txt (log_info m w) = response_txt w"
  "calls (snd (time_time env w)) = calls w" "stdout (snd (time_time env w)) = stdout w"
  "response_txt (snd (time_time env w)) = response_txt w"
  "logged (snd (time_time env w)) = logged w"
  "calls (file_write s w) = calls w" "stdout (file_write s w) = stdout w"
  "logged (file_write s w) = logged w" "ticks (file_write s w) = ticks w"
  by (simp_all add: log_info_def time_time_def file_write_def)

lemma time_time_frame:
  assumes "time_time env w = (t, w')"
  shows "calls w' = calls w" "stdout w' = stdout w" "response_txt w' = response_txt w"
    "logged w' = logged w"
  using assms by (auto simp: time_time_def)

text \<open>\<open>generate_conversation\<close> sends one request and leaves the file and the console alone.\<close>

lemma generate_conversation_frame:
  assumes "generate_conversation env mid sys msg n w = (res, w')"
  shows "response_txt w' = response_txt w" "stdout w' = stdout w"
    "calls w' = calls w @ [\<lparr>modelId = mid, system = sys, message = msg, maxTokens = n\<rparr>]"
  using assms
  by (auto simp: generate_conversation_def Let_def log_info_def split: converse_result.splits)

lemma generate_conversation_result:
  assumes "generate_conversation env mid sys msg n w = (res, w')"
  shows "case res of
           Inl e \<Rightarrow> \<exists>m. e = ClientError m \<and>
               converse env (length (calls w))
                 \<lparr>modelId = mid, system = sys, message = msg, maxTokens = n\<rparr> = ConverseFails m
         | Inr r \<Rightarrow> converse env (length (calls w))
                 \<lparr>modelId = mid, system = sys, message = msg, maxTokens = n\<rparr> = Converse r"
  using assms
  by (auto simp: generate_conversation_def Let_def log_info_def split: converse_result.splits)

lemma run_inv_Inl: "run_inv env cs (Inl e :: exn + 'a) = run_inv env cs (Inl e :: exn + 'b)"
  by (simp add: run_inv_def)

lemma step_ok_Inl:
  "step_ok env w (Inl e :: exn + 'a) w' \<Longrightarrow> step_ok env w (Inl e :: exn + 'b) w'"
  unfolding step_ok_def run_inv_Inl[where 'a = 'a and 'b = 'b] .

lemma step_ok_trans:
  "step_ok env w (Inr x) w1 \<Longrightarrow> step_ok env w1 res w2 \<Longrightarrow> step_ok env w res w2"
  by (simp add: step_ok_def run_inv_def)

lemma step_ok_same:
  "calls w' = calls w \<Longrightarrow> response_txt w' = response_txt w \<Longrightarrow> stdout w' = stdout w \<Longrightarrow>
   step_ok env w (Inr x) w'"
  by (simp add: step_ok_def run_inv_def)

lemma step_ok_Inr: "step_ok env w (Inr x :: exn + 'a) w' \<Longrightarrow> step_ok env w (Inr y :: exn + 'b) w'"
  by (simp add: step_ok_def run_inv_def)

lemma step_ok_other:
  "calls w' = calls w \<Longrightarrow> response_txt w' = response_txt w \<Longrightarrow> stdout w' = stdout w \<Longrightarrow>
   \<not> is_call_failure e \<Longrightarrow> step_ok env w (Inl e) w'"
  by (simp add: step_ok_def run_inv_def)

lemma time_time_ok: "time_time env w = (t, w') \<Longrightarrow> step_ok env w (Inr ()) w'"
  by (rule step_ok_same) (auto simp: time_time_def)

lemma log_info_ok: "step_ok env w (Inr ()) (log_info m w)"
  by (rule step_ok_same) (simp_all add: log_info_def)

text \<open>A call that is not a grading call.\<close>

lemma generate_conversation_ok:
  assumes "generate_conversation env mid sys msg n w = (res, w')" and "n \<noteq> 100"
  shows "step_ok env w res w'"
proof -
  let ?req = "\<lparr>modelId = mid, system = sys, message = msg, maxTokens = n\<rparr>"
  note fr = generate_conversation_frame[OF assms(1)]
  note rs = generate_conversation_result[OF assms(1)]
  have "run_inv env (calls w') res" if good: "all_good env (calls w)"
  proof (cases res)
    case (Inl e)
    with rs obtain m where m: "e = ClientError m" "converse env (length (calls w)) ?req = ConverseFails m"
      by auto
    then show ?thesis
      using good Inl fr(3) by (simp add: run_inv_def is_call_failure_def bad_call_def)
  next
    case (Inr r)
    with rs have "converse env (length (calls w)) ?req = Converse r" by simp
    then show ?thesis
      using good Inr fr(3) assms(2) by (simp add: run_inv_def all_good_snoc good_call_def)
  qed
  then show ?thesis using fr by (simp add: step_ok_def)
qed

lemma get_feedback_ok:
  assumes "get_feedback env mid resp sys w = (res, w')"
  shows "step_ok env w res w'"
proof -
  obtain r0 w0 where g: "generate_conversation env mid sys
      (''Provide critical feedback for the following answer:\<newline>\<newline>'' @ resp) 512 w = (r0, w0)"
    by (cases "generate_conversation env mid sys
      (''Provide critical feedback for the following answer:\<newline>\<newline>'' @ resp) 512 w")
  have ok: "step_ok env w r0 w0" by (rule generate_conversation_ok[OF g]) simp
  show ?thesis
  proof (cases r0)
    case (Inl e)
    with assms g have eq: "res = Inl e" "w' = w0" by (auto simp: get_feedback_def)
    show ?thesis unfolding eq by (rule step_ok_Inl[OF ok[unfolded Inl]])
  next
    case (Inr r)
    with assms g have eq: "res = Inr (out_text r)" "w' = w0" by (auto simp: get_feedback_def)
    show ?thesis unfolding eq by (rule step_ok_Inr[OF ok[unfolded Inr]])
  qed
qed

lemma grade_response_ok:
  assumes "grade_response env mid resp fb sys w = (res, w')"
  shows "step_ok env w res w'"
proof -
  let ?msg = "''Grade the following response on a scale from -100 to 100 based on the feedback:''
              @ ''\<newline>\<newline>Response: '' @ resp @ ''\<newline>Feedback: '' @ fb"
  let ?req = "\<lparr>modelId = mid, system = sys, message = ?msg, maxTokens = 100\<rparr>"
  obtain r0 w0 where g: "generate_conversation env mid sys ?msg 100 w = (r0, w0)"
    by (cases "generate_conversation env mid sys ?msg 100 w")
  note fr = generate_conversation_frame[OF g]
  note rs = generate_conversation_result[OF g]
  show ?thesis
  proof (cases r0)
    case (Inl e)
    with assms g have eq: "res = Inl e" "w' = w0" by (auto simp: grade_response_def)
    from Inl rs obtain m where m: "e = ClientError m"
      "converse env (length (calls w)) ?req = ConverseFails m" by auto
    show ?thesis
      using eq fr m by (simp add: step_ok_def run_inv_def is_call_failure_def bad_call_def)
  next
    case (Inr r)
    with assms g have eq: "res = extract_grade (out_text r)"
      "w' = log_info (''Grading response: '' @ strip (out_text r)) w0"
      by (auto simp: grade_response_def)
    from Inr rs have c: "converse env (length (calls w)) ?req = Converse r" by simp
    have fr': "calls w' = calls w @ [?req]" "response_txt w' = response_txt w" "stdout w' = stdout w"
      using eq(2) fr by (simp_all add: log_info_def)
    have "run_inv env (calls w') res" if good: "all_good env (calls w)"
    proof (cases "extract_grade (out_text r)")
      case (Inl e)
      from extract_grade_total[of "out_text r"] Inl have "is_call_failure e"
        by (auto simp: is_call_failure_def)
      then show ?thesis
        using Inl eq(1) fr'(1) good c by (simp add: run_inv_def bad_call_def)
    next
      case (Inr g)
      then show ?thesis
        using eq(1) fr'(1) good c by (simp add: run_inv_def all_good_snoc good_call_def)
    qed
    then show ?thesis using fr' by (simp add: step_ok_def)
  qed
qed

section \<open>Properties: the rounds\<close>

lemma assess_one_cases:
  assumes "assess_one env r w = (res, w')"
  obtains
    (feedback_fails) t0 w1 e where
      "time_time env w = (t0, w1)"
      "get_feedback env model_id (response r) system_prompts w1 = (Inl e, w')" "res = Inl e"
  | (grade_fails) t0 w1 fb w2 t1 w3 t2 w4 e where
      "time_time env w = (t0, w1)"
      "get_feedback env model_id (response r) system_prompts w1 = (Inr fb, w2)"
      "time_time env w2 = (t1, w3)" "time_time env w3 = (t2, w4)"
      "grade_response env model_id (response r) fb system_prompts w4 = (Inl e, w')" "res = Inl e"
  | (assessed) t0 w1 fb w2 t1 w3 t2 w4 g w5 t3 where
      "time_time env w = (t0, w1)"
      "get_feedback env model_id (response r) system_prompts w1 = (Inr fb, w2)"
      "time_time env w2 = (t1, w3)" "time_time env w3 = (t2, w4)"
      "grade_response env model_id (response r) fb system_prompts w4 = (Inr g, w5)"
      "time_time env w5 = (t3, w')"
      "res = Inr (r\<lparr>feedback := Some fb, feedback_time_taken := Some (elapsed env t1 t0),
                    grade := Some g, grade_time_taken := Some (elapsed env t3 t2)\<rparr>)"
  using assms unfolding assess_one_def
  by (auto split: prod.splits sum.splits)

lemma assess_one_ok:
  assumes "assess_one env r w = (res, w')"
  shows "step_ok env w res w'"
  using assms
proof (cases rule: assess_one_cases)
  case (feedback_fails t0 w1 e)
  have "step_ok env w (Inl e :: exn + string) w'"
    using time_time_ok[OF feedback_fails(1)] get_feedback_ok[OF feedback_fails(2)]
    by (rule step_ok_trans)
  then show ?thesis unfolding feedback_fails(3) by (rule step_ok_Inl)
next
  case (grade_fails t0 w1 fb w2 t1 w3 t2 w4 e)
  have "step_ok env w (Inr fb) w2"
    using time_time_ok[OF grade_fails(1)] get_feedback_ok[OF grade_fails(2)]
    by (rule step_ok_trans)
  then have "step_ok env w (Inr ()) w3"
    using time_time_ok[OF grade_fails(3)] by (rule step_ok_trans)
  then have "step_ok env w (Inr ()) w4"
    using time_time_ok[OF grade_fails(4)] by (rule step_ok_trans)
  then have "step_ok env w (Inl e :: exn + int) w'"
    using grade_response_ok[OF grade_fails(5)] by (rule step_ok_trans)
  then show ?thesis unfolding grade_fails(6) by (rule step_ok_Inl)
next
  case (assessed t0 w1 fb w2 t1 w3 t2 w4 g w5 t3)
  have "step_ok env w (Inr fb) w2"
    using time_time_ok[OF assessed(1)] get_feedback_ok[OF assessed(2)]
    by (rule step_ok_trans)
  then have "step_ok env w (Inr ()) w3"
    using time_time_ok[OF assessed(3)] by (rule step_ok_trans)
  then have "step_ok env w (Inr ()) w4"
    using time_time_ok[OF assessed(4)] by (rule step_ok_trans)
  then have "step_ok env w (Inr g) w5"
    using grade_response_ok[OF assessed(5)] by (rule step_ok_trans)
  then have "step_ok env w (Inr ()) w'"
    using time_time_ok[OF assessed(6)] by (rule step_ok_trans)
  then show ?thesis unfolding assessed(7) by (rule step_ok_Inr)
qed

lemma assess_one_result:
  assumes "assess_one env r w = (Inr r', w')"
  shows "assessed r'" "response r' = response r" "time_taken r' = time_taken r"
  using assms by (cases rule: assess_one_cases; simp add: assessed_def)+

lemma assess_all_ok: "assess_all env rs w = (res, w') \<Longrightarrow> step_ok env w res w'"
proof (induction rs arbitrary: w res w')
  case Nil
  then show ?case by (auto intro: step_ok_same)
next
  case (Cons r rs)
  obtain r1 w1 where a: "assess_one env r w = (r1, w1)" by (cases "assess_one env r w")
  note ok1 = assess_one_ok[OF a]
  show ?case
  proof (cases r1)
    case (Inl e)
    with Cons.prems a have eq: "res = Inl e" "w' = w1" by auto
    show ?thesis unfolding eq by (rule step_ok_Inl[OF ok1[unfolded Inl]])
  next
    case (Inr r')
    obtain r2 w2 where b: "assess_all env rs w1 = (r2, w2)" by (cases "assess_all env rs w1")
    note ok2 = step_ok_trans[OF ok1[unfolded Inr] Cons.IH[OF b]]
    show ?thesis
    proof (cases r2)
      case (Inl e)
      with Cons.prems a b Inr have eq: "res = Inl e" "w' = w2" by auto
      show ?thesis unfolding eq by (rule step_ok_Inl[OF ok2[unfolded Inl]])
    next
      case (Inr rs')
      with Cons.prems a b \<open>r1 = Inr r'\<close> have eq: "res = Inr (r' # rs')" "w' = w2" by auto
      show ?thesis unfolding eq by (rule step_ok_Inr[OF ok2[unfolded Inr]])
    qed
  qed
qed

lemma assess_all_result:
  "assess_all env rs w = (Inr rs', w') \<Longrightarrow>
   list_all assessed rs' \<and> map response rs' = map response rs \<and>
   map time_taken rs' = map time_taken rs"
proof (induction rs arbitrary: w rs')
  case Nil
  then show ?case by simp
next
  case (Cons r rs)
  from Cons.prems obtain r' w1 rs1 where
    a: "assess_one env r w = (Inr r', w1)" and b: "assess_all env rs w1 = (Inr rs1, w')"
    and eq: "rs' = r' # rs1"
    by (auto split: prod.splits sum.splits)
  show ?case using assess_one_result[OF a] Cons.IH[OF b] eq by simp
qed

lemma sorted_by_grade_assessed:
  assumes "list_all assessed rs"
  shows "sorted_by_grade rs = Inr (rev (sort_key (\<lambda>r. the (grade r)) (rev rs)))"
  using assms by (intro sorted_by_grade_graded) (auto simp: list_all_iff assessed_def)

lemma sorted_by_grade_result:
  assumes "list_all assessed rs" and "sorted_by_grade rs = Inr ys"
  shows "list_all assessed ys" "length ys = length rs"
    "sorted_wrt (\<ge>) (map (\<lambda>r. the (grade r)) ys)" "mset ys = mset rs"
proof -
  have ys: "ys = rev (sort_key (\<lambda>r. the (grade r)) (rev rs))"
    using sorted_by_grade_assessed[OF assms(1)] assms(2) by simp
  show "list_all assessed ys" using assms(1) unfolding ys by (simp add: list_all_iff)
  show "length ys = length rs" unfolding ys by simp
  show "sorted_wrt (\<ge>) (map (\<lambda>r. the (grade r)) ys)" unfolding ys by (rule rev_sort_descending)
  show "mset ys = mset rs" unfolding ys by simp
qed

lemma sorted_by_grade_error: "sorted_by_grade rs = Inl e \<Longrightarrow> e = TypeError"
  by (auto simp: sorted_by_grade_def split: if_splits)

lemma refine_best_cases:
  assumes "refine_best env it rs w = (res, w')"
  obtains
    (empty) "rs = []" "res = Inl IndexError" "w' = w"
  | (call) best others r0 where "rs = best # others"
      "generate_conversation env model_id system_prompts
         (''Refine the following response to make it more concise and technical but retain information:\<newline>\<newline>''
          @ response best) 1024
         (log_info (''Best response at iteration '' @ str_int (int it + 1) @ '': ''
                    @ response best @ '' (Grade: '' @ str_grade (grade best) @ '')'') w) = (r0, w')"
      "res = (case r0 of Inl e \<Rightarrow> Inl e | Inr r \<Rightarrow> Inr (best\<lparr>response := out_text r\<rparr> # others))"
  using assms unfolding refine_best_def
  by (cases rs) (auto split: prod.splits sum.splits)

lemma refine_best_ok:
  assumes "refine_best env it rs w = (res, w')"
  shows "step_ok env w res w'"
  using assms
proof (cases rule: refine_best_cases)
  case empty
  then show ?thesis by (auto intro!: step_ok_other simp: is_call_failure_def)
next
  case (call best others r0)
  have ok: "step_ok env w r0 w'"
    by (rule step_ok_trans[OF log_info_ok generate_conversation_ok[OF call(2)]]) simp
  show ?thesis
  proof (cases r0)
    case (Inl e)
    then have eq: "res = Inl e" using call(3) by simp
    show ?thesis unfolding eq by (rule step_ok_Inl[OF ok[unfolded Inl]])
  next
    case (Inr r)
    then have eq: "res = Inr (best\<lparr>response := out_text r\<rparr> # others)" using call(3) by simp
    show ?thesis unfolding eq by (rule step_ok_Inr[OF ok[unfolded Inr]])
  qed
qed

text \<open>The refinement changes the text of the first candidate and nothing else.\<close>

lemma refine_best_result:
  assumes "refine_best env it rs w = (Inr rs', w')"
  shows "\<exists>reply. rs \<noteq> [] \<and> rs' = (hd rs)\<lparr>response := out_text reply\<rparr> # tl rs \<and>
           converse env (length (calls w))
             \<lparr>modelId = model_id, system = system_prompts,
              message = ''Refine the following response to make it more concise and technical but retain information:\<newline>\<newline>''
                        @ response (hd rs),
              maxTokens = 1024\<rparr> = Converse reply"
  using assms
proof (cases rule: refine_best_cases)
  case empty
  then show ?thesis by simp
next
  case (call best others r0)
  from call(3) obtain r where r: "r0 = Inr r" "rs' = best\<lparr>response := out_text r\<rparr> # others"
    by (cases r0) auto
  from generate_conversation_result[OF call(2)] r(1)
  show ?thesis using call(1) r(2) by (auto simp: log_info_def)
qed

lemma iteration_body_cases:
  assumes "iteration_body env it rs w = (res, w')"
  obtains
    (assess_fails) e where
      "assess_all env rs (log_info (''Iteration '' @ str_int (int it + 1)) w) = (Inl e, w')"
      "res = Inl e"
  | (sort_fails) rs1 e where
      "assess_all env rs (log_info (''Iteration '' @ str_int (int it + 1)) w) = (Inr rs1, w')"
      "sorted_by_grade rs1 = Inl e" "res = Inl e"
  | (refine) rs1 w1 rs2 where
      "assess_all env rs (log_info (''Iteration '' @ str_int (int it + 1)) w) = (Inr rs1, w1)"
      "sorted_by_grade rs1 = Inr rs2" "refine_best env it rs2 w1 = (res, w')"
  using assms unfolding iteration_body_def
  by (auto split: prod.splits sum.splits)

lemma iteration_body_ok:
  assumes "iteration_body env it rs w = (res, w')"
  shows "step_ok env w res w'"
  using assms
proof (cases rule: iteration_body_cases)
  case (assess_fails e)
  have "step_ok env w (Inl e :: exn + 'a candidate list) w'"
    by (rule step_ok_trans[OF log_info_ok assess_all_ok[OF assess_fails(1)]])
  then show ?thesis unfolding assess_fails(2) .
next
  case (sort_fails rs1 e)
  have ok: "step_ok env w (Inr rs1) w'"
    by (rule step_ok_trans[OF log_info_ok assess_all_ok[OF sort_fails(1)]])
  have "e = TypeError" using sort_fails(2) by (rule sorted_by_grade_error)
  then have "\<not> is_call_failure e" by (simp add: is_call_failure_def)
  then show ?thesis using ok unfolding sort_fails(3) by (simp add: step_ok_def run_inv_def)
next
  case (refine rs1 w1 rs2)
  have "step_ok env w (Inr rs1) w1"
    by (rule step_ok_trans[OF log_info_ok assess_all_ok[OF refine(1)]])
  then show ?thesis using refine_best_ok[OF refine(3)] by (rule step_ok_trans)
qed

lemma iteration_body_result:
  assumes "iteration_body env it rs w = (Inr rs', w')"
  shows "\<exists>rs1 w1 rs2 reply.
           assess_all env rs (log_info (''Iteration '' @ str_int (int it + 1)) w) = (Inr rs1, w1) \<and>
           list_all assessed rs1 \<and> map response rs1 = map response rs \<and>
           sorted_by_grade rs1 = Inr rs2 \<and> rs2 \<noteq> [] \<and>
           rs' = (hd rs2)\<lparr>response := out_text reply\<rparr> # tl rs2 \<and>
           converse env (length (calls w1))
             \<lparr>modelId = model_id, system = system_prompts,
              message = ''Refine the following response to make it more concise and technical but retain information:\<newline>\<newline>''
                        @ response (hd rs2),
              maxTokens = 1024\<rparr> = Converse reply"
  using assms
proof (cases rule: iteration_body_cases)
  case (refine rs1 w1 rs2)
  from refine_best_result[OF refine(3)] assess_all_result[OF refine(1)] refine(1,2)
  show ?thesis by blast
qed simp_all

lemma refine_best_text_only:
  assumes "refine_best env it rs w = (Inr rs', w')"
  shows "\<exists>t. rs \<noteq> [] \<and> rs' = (hd rs)\<lparr>response := t\<rparr> # tl rs"
  using refine_best_result[OF assms] by blast

lemma iteration_body_assessed':
  assumes "iteration_body env it rs w = (Inr rs', w')"
  shows "list_all assessed rs' \<and> length rs' = length rs \<and>
    sorted_wrt (\<ge>) (map (\<lambda>r. the (grade r)) rs')"
  using assms
proof (cases rule: iteration_body_cases)
  case (refine rs1 w1 rs2)
  note a = assess_all_result[OF refine(1)]
  from a have a1: "list_all assessed rs1" by simp
  note sr = sorted_by_grade_result[OF a1 refine(2)]
  from refine_best_text_only[OF refine(3)] obtain t b others where
    rs2: "rs2 = b # others" and eq: "rs' = b\<lparr>response := t\<rparr> # others"
    by (cases rs2) auto
  have l1: "length rs1 = length rs" using a by (metis length_map)
  have "list_all assessed rs'" using sr(1) unfolding eq rs2 by (simp add: assessed_def)
  moreover have "length rs' = length rs" using sr(2) l1 unfolding eq rs2 by simp
  moreover have "sorted_wrt (\<ge>) (map (\<lambda>r. the (grade r)) rs')"
    using sr(3) unfolding eq rs2 by simp
  ultimately show ?thesis by blast
qed simp_all

lemma iteration_body_assessed:
  assumes "iteration_body env it rs w = (Inr rs', w')"
  shows "list_all assessed rs'" "length rs' = length rs"
    "sorted_wrt (\<ge>) (map (\<lambda>r. the (grade r)) rs')"
  using iteration_body_assessed'[OF assms] by blast+

lemma rounds_ok: "rounds env n it rs w = (res, w') \<Longrightarrow> step_ok env w res w'"
proof (induction n arbitrary: it rs w)
  case 0
  then show ?case by (auto intro: step_ok_same)
next
  case (Suc n)
  obtain r1 w1 where a: "iteration_body env it rs w = (r1, w1)"
    by (cases "iteration_body env it rs w")
  note ok1 = iteration_body_ok[OF a]
  show ?case
  proof (cases r1)
    case (Inl e)
    with Suc.prems a have eq: "res = Inl e" "w' = w1" by auto
    show ?thesis unfolding eq using ok1[unfolded Inl] .
  next
    case (Inr rs1)
    with Suc.prems a have "rounds env n (Suc it) rs1 w1 = (res, w')" by simp
    from step_ok_trans[OF ok1[unfolded Inr] Suc.IH[OF this]] show ?thesis .
  qed
qed

lemma rounds_result:
  "rounds env n it rs w = (Inr rs', w') \<Longrightarrow>
   length rs' = length rs \<and>
   (0 < n \<longrightarrow> list_all assessed rs' \<and> sorted_wrt (\<ge>) (map (\<lambda>r. the (grade r)) rs'))"
proof (induction n arbitrary: it rs w)
  case 0
  then show ?case by simp
next
  case (Suc n)
  from Suc.prems obtain rs1 w1 where
    a: "iteration_body env it rs w = (Inr rs1, w1)" and b: "rounds env n (Suc it) rs1 w1 = (Inr rs', w')"
    by (auto split: prod.splits sum.splits)
  note r1 = iteration_body_assessed[OF a]
  show ?case
  proof (cases n)
    case 0
    with b have "rs' = rs1" by simp
    then show ?thesis using r1 by simp
  next
    case (Suc m)
    then show ?thesis using Suc.IH[OF b] r1(2) by simp
  qed
qed

lemma seed_loop_ok: "seed_loop env n rs w = (res, w') \<Longrightarrow> step_ok env w res w'"
proof (induction n arbitrary: rs w)
  case 0
  then show ?case by (auto intro: step_ok_same)
next
  case (Suc n)
  obtain t0 w1 where t: "time_time env w = (t0, w1)" by (cases "time_time env w")
  obtain r0 w2 where g: "generate_conversation env model_id system_prompts message_1 1024 w1 = (r0, w2)"
    by (cases "generate_conversation env model_id system_prompts message_1 1024 w1")
  have ok: "step_ok env w r0 w2"
    by (rule step_ok_trans[OF time_time_ok[OF t] generate_conversation_ok[OF g]]) simp
  show ?case
  proof (cases r0)
    case (Inl e)
    with Suc.prems t g have eq: "res = Inl e" "w' = w2" by auto
    show ?thesis unfolding eq by (rule step_ok_Inl[OF ok[unfolded Inl]])
  next
    case (Inr r)
    obtain t1 w3 where t1: "time_time env w2 = (t1, w3)" by (cases "time_time env w2")
    have ok3: "step_ok env w (Inr ()) w3"
      by (rule step_ok_trans[OF ok[unfolded Inr] time_time_ok[OF t1]])
    from Suc.prems t g Inr t1 obtain rs1 where "seed_loop env n rs1 w3 = (res, w')" by auto
    from step_ok_trans[OF ok3 Suc.IH[OF this]] show ?thesis .
  qed
qed

lemma seed_loop_result:
  "seed_loop env n rs w = (Inr rs', w') \<Longrightarrow> length rs' = length rs + n"
proof (induction n arbitrary: rs w)
  case 0
  then show ?case by simp
next
  case (Suc n)
  from Suc.prems obtain rs1 w3 where "seed_loop env n rs1 w3 = (Inr rs', w')" "length rs1 = Suc (length rs)"
    by (auto split: prod.splits sum.splits)
  with Suc.IH show ?case by fastforce
qed

lemma run_rounds_ok:
  assumes "run_rounds env num_iterations w = (res, w')"
  shows "step_ok env w res w'"
proof -
  obtain r0 w1 where s: "seed_loop env 3 [] w = (r0, w1)" by (cases "seed_loop env 3 [] w")
  note ok = seed_loop_ok[OF s]
  show ?thesis
  proof (cases r0)
    case (Inl e)
    with assms s have eq: "res = Inl e" "w' = w1" by (auto simp: run_rounds_def)
    show ?thesis unfolding eq using ok[unfolded Inl] .
  next
    case (Inr rs)
    with assms s have "rounds env (nat num_iterations) 0 rs w1 = (res, w')"
      by (auto simp: run_rounds_def)
    from step_ok_trans[OF ok[unfolded Inr] rounds_ok[OF this]] show ?thesis .
  qed
qed

lemma run_rounds_result:
  assumes "run_rounds env num_iterations w = (Inr rs, w')"
  shows "length rs = 3"
    and "0 < num_iterations \<Longrightarrow> list_all assessed rs \<and> sorted_wrt (\<ge>) (map (\<lambda>r. the (grade r)) rs)"
proof -
  from assms obtain rs0 w1 where s: "seed_loop env 3 [] w = (Inr rs0, w1)"
    and r: "rounds env (nat num_iterations) 0 rs0 w1 = (Inr rs, w')"
    by (auto simp: run_rounds_def split: prod.splits sum.splits)
  from seed_loop_result[OF s] rounds_result[OF r] show "length rs = 3" by simp
  show "list_all assessed rs \<and> sorted_wrt (\<ge>) (map (\<lambda>r. the (grade r)) rs)" if "0 < num_iterations"
    using rounds_result[OF r] that by simp
qed

text \<open>A round reads only the texts of the candidates it is given.\<close>

lemma assess_one_unassessed: "assess_one env (unassessed r) w = assess_one env r w"
  by (simp add: assess_one_def unassessed_def split: prod.splits sum.splits)

lemma assess_all_unassessed: "assess_all env (map unassessed rs) w = assess_all env rs w"
  by (induction rs arbitrary: w) (simp_all add: assess_one_unassessed split: prod.splits sum.splits)

lemma iteration_body_unassessed:
  "iteration_body env it (map unassessed rs) w = iteration_body env it rs w"
  by (simp add: iteration_body_def assess_all_unassessed)

text \<open>The seed candidates have no \<open>feedback_time_taken\<close>.\<close>

lemma seed_loop_no_times:
  "seed_loop env n rs w = (Inr rs', w') \<Longrightarrow>
   list_all (\<lambda>r. feedback_time_taken r = None) rs \<Longrightarrow>
   list_all (\<lambda>r. feedback_time_taken r = None) rs'"
proof (induction n arbitrary: rs w)
  case 0
  then show ?case by simp
next
  case (Suc n)
  from Suc.prems(1) obtain c w3 where
    s: "seed_loop env n (rs @ [c]) w3 = (Inr rs', w')" and c: "feedback_time_taken c = None"
    by (auto split: prod.splits sum.splits)
  have "list_all (\<lambda>r. feedback_time_taken r = None) (rs @ [c])"
    using Suc.prems(2) c by simp
  from Suc.IH[OF s this] show ?case .
qed

lemma run_rounds_no_rounds:
  assumes "run_rounds env num_iterations w = (Inr rs, w')" and "num_iterations \<le> 0"
  shows "list_all (\<lambda>r. feedback_time_taken r = None) rs"
proof -
  from assms(2) have z: "nat num_iterations = 0" by simp
  from assms(1) obtain rs0 w1 where s: "seed_loop env 3 [] w = (Inr rs0, w1)"
    and r: "rounds env (nat num_iterations) 0 rs0 w1 = (Inr rs, w')"
    by (auto simp: run_rounds_def split: prod.splits sum.splits)
  from r have "rs = rs0" unfolding z by simp
  with seed_loop_no_times[OF s] show ?thesis by simp
qed

section \<open>Properties: the summary\<close>

lemma file_write_twice: "file_write b (file_write a w) = file_write (a @ b) w"
  by (simp add: file_write_def option.map_comp comp_def)

lemma file_write_empty: "file_write [] w = w"
  by (simp add: file_write_def option.map_ident)

lemma file_write_fields:
  "calls (file_write s w) = calls w" "stdout (file_write s w) = stdout w"
  "response_txt (file_write s w) = map_option (\<lambda>c. c @ s) (response_txt w)"
  by (simp_all add: file_write_def)

lemma appended_refl: "appended w w"
  unfolding appended_def using file_write_empty[of w] by metis

lemma appended_write: "appended w w' \<Longrightarrow> appended w (file_write s w')"
  unfolding appended_def using file_write_twice by metis

lemma appended_trans: "appended w w1 \<Longrightarrow> appended w1 w2 \<Longrightarrow> appended w w2"
  unfolding appended_def using file_write_twice by metis

lemma write_block_appended:
  assumes "write_block env i r w = (res, w')"
  shows "appended w w'" and "\<And>e. res = Inl e \<Longrightarrow> \<not> is_call_failure e"
proof -
  show "appended w w'"
    using assms unfolding write_block_def Let_def
    by (auto split: option.splits intro!: appended_write appended_refl)
  show "\<And>e. res = Inl e \<Longrightarrow> \<not> is_call_failure e"
    using assms unfolding write_block_def Let_def
    by (auto split: option.splits simp: is_call_failure_def)
qed

lemma write_block_assessed:
  assumes "assessed r"
  shows "write_block env i r w = (Inr (), file_write (spec_block env i r) w)"
proof -
  from assms obtain fb g ft gt where
    "feedback r = Some fb" "grade r = Some g" "feedback_time_taken r = Some ft"
    "grade_time_taken r = Some gt" by (auto simp: assessed_def)
  then show ?thesis
    by (simp add: write_block_def Let_def spec_block_def file_write_twice str_grade_def
        str_feedback_def)
qed

lemma write_blocks_appended:
  "write_blocks env i rs w = (res, w') \<Longrightarrow>
   appended w w' \<and> (\<forall>e. res = Inl e \<longrightarrow> \<not> is_call_failure e)"
proof (induction rs arbitrary: i w)
  case Nil
  then show ?case by (auto intro: appended_refl)
next
  case (Cons r rs)
  obtain r1 w1 where b: "write_block env i r w = (r1, w1)" by (cases "write_block env i r w")
  note a = write_block_appended[OF b]
  show ?case
  proof (cases r1)
    case (Inl e)
    with Cons.prems b have "res = Inl e" "w' = w1" by auto
    then show ?thesis using a Inl by auto
  next
    case (Inr u)
    with Cons.prems b have "write_blocks env (Suc i) rs w1 = (res, w')" by simp
    from Cons.IH[OF this] a(1) show ?thesis by (auto intro: appended_trans)
  qed
qed

lemma write_blocks_assessed:
  "list_all assessed rs \<Longrightarrow>
   write_blocks env i rs w =
     (Inr (), file_write (concat (map (\<lambda>(j, r). spec_block env j r) (enumerate i rs))) w)"
proof (induction rs arbitrary: i w)
  case Nil
  then show ?case by (simp add: file_write_empty)
next
  case (Cons r rs)
  then show ?case by (simp add: write_block_assessed file_write_twice)
qed

lemma write_summary_appended:
  assumes "write_summary env total_time rs w = (res, w')"
  shows "\<exists>rest. w' = file_write (''\<newline>SUMMARY OF PROCESS\<newline>'' @ rest) w"
    and "\<And>e. res = Inl e \<Longrightarrow> \<not> is_call_failure e"
proof -
  let ?w0 = "file_write (''Total time taken for the process: '' @ fmt2f env total_time @ '' seconds\<newline>'')
               (file_write (replicate 40 CHR ''='' @ ''\<newline>'')
                 (file_write ''\<newline>SUMMARY OF PROCESS\<newline>'' w))"
  obtain r1 w1 where b: "write_blocks env 0 rs ?w0 = (r1, w1)"
    by (cases "write_blocks env 0 rs ?w0")
  from write_blocks_appended[OF b] have a: "appended ?w0 w1"
    and ne: "\<And>e. r1 = Inl e \<Longrightarrow> \<not> is_call_failure e" by auto
  have "appended (file_write ''\<newline>SUMMARY OF PROCESS\<newline>'' w) ?w0"
    by (intro appended_write appended_refl)
  with a have a1: "appended (file_write ''\<newline>SUMMARY OF PROCESS\<newline>'' w) w1"
    by (rule appended_trans[rotated])
  have "appended (file_write ''\<newline>SUMMARY OF PROCESS\<newline>'' w) w' \<and>
        (\<forall>e. res = Inl e \<longrightarrow> \<not> is_call_failure e)"
    using assms b a1 ne unfolding write_summary_def
    by (cases r1; cases rs) (auto intro!: appended_write simp: is_call_failure_def)
  then obtain s where "w' = file_write s (file_write ''\<newline>SUMMARY OF PROCESS\<newline>'' w)"
    and e: "\<forall>e. res = Inl e \<longrightarrow> \<not> is_call_failure e"
    unfolding appended_def by blast
  then have "w' = file_write (''\<newline>SUMMARY OF PROCESS\<newline>'' @ s) w"
    by (simp only: file_write_twice)
  then show "\<exists>rest. w' = file_write (''\<newline>SUMMARY OF PROCESS\<newline>'' @ rest) w" by blast
  show "\<And>e. res = Inl e \<Longrightarrow> \<not> is_call_failure e" using e by blast
qed

lemma write_summary_assessed:
  assumes "list_all assessed rs" and "rs \<noteq> []"
  shows "write_summary env total_time rs w = (Inr (), file_write (spec_summary env total_time rs) w)"
proof -
  obtain b others where rs: "rs = b # others" using assms(2) by (cases rs) auto
  then have "assessed b" using assms(1) by simp
  then obtain g where g: "grade b = Some g" by (auto simp: assessed_def)
  show ?thesis
    unfolding write_summary_def write_blocks_assessed[OF assms(1)]
    by (simp add: rs g spec_summary_def file_write_twice str_grade_def del: replicate.simps replicate_Suc)
qed

lemma write_summary_no_times:
  assumes "feedback_time_taken r = None"
  shows "fst (write_summary env total_time (r # rs) w) = Inl (KeyError ''feedback_time_taken'')"
  using assms by (simp add: write_summary_def write_block_def Let_def)

section \<open>Properties: main\<close>

lemma open_file_frame:
  assumes "open_file env w = (start, w1)"
  shows "calls w1 = calls w" "stdout w1 = stdout w" "response_txt w1 = Some []"
    "start = clock env (ticks w)"
  using assms by (auto simp: open_file_def time_time_def)

lemma try_body_cases:
  assumes "try_body env n w = (res, w')"
  obtains
    (rounds_fail) start w1 e where
      "open_file env w = (start, w1)" "run_rounds env n w1 = (Inl e, w')" "res = Inl e"
  | (summary) start w1 rs w2 t w3 where
      "open_file env w = (start, w1)" "run_rounds env n w1 = (Inr rs, w2)"
      "time_time env w2 = (t, w3)" "write_summary env (elapsed env t start) rs w3 = (res, w')"
  using assms unfolding try_body_def
  by (auto split: prod.splits sum.splits)

text \<open>Until the summary is written the file stays empty.\<close>

lemma run_rounds_file:
  assumes "open_file env w = (start, w1)" and "run_rounds env n w1 = (res, w2)"
  shows "response_txt w2 = Some []" "stdout w2 = stdout w"
    "all_good env (calls w) \<Longrightarrow> run_inv env (calls w2) res"
  using run_rounds_ok[OF assms(2)] open_file_frame[OF assms(1)]
  by (simp_all add: step_ok_def)

lemma try_body_inv':
  assumes "try_body env n w = (res, w')" and "all_good env (calls w)"
  shows "run_inv env (calls w') res \<and> stdout w' = stdout w \<and>
    (\<forall>e. res = Inl e \<longrightarrow> is_call_failure e \<longrightarrow> response_txt w' = Some [])"
  using assms(1)
proof (cases rule: try_body_cases)
  case (rounds_fail start w1 e)
  note f = run_rounds_file[OF rounds_fail(1,2)]
  have "run_inv env (calls w') res"
    using f(3)[OF assms(2)] unfolding rounds_fail(3) by (simp add: run_inv_def)
  then show ?thesis using f(1,2) by blast
next
  case (summary start w1 rs w2 t w3)
  note f = run_rounds_file[OF summary(1,2)]
  note tf = time_time_frame[OF summary(3)]
  from write_summary_appended[OF summary(4)] obtain rest where
    w': "w' = file_write (''\<newline>SUMMARY OF PROCESS\<newline>'' @ rest) w3"
    and ne: "\<And>e. res = Inl e \<Longrightarrow> \<not> is_call_failure e" by blast
  have good: "all_good env (calls w')"
    using f(3)[OF assms(2)] tf(1) unfolding w' by (simp add: run_inv_def file_write_fields)
  have "run_inv env (calls w') res" using good ne by (cases res) (auto simp: run_inv_def)
  moreover have "stdout w' = stdout w"
    using f(2) tf(2) unfolding w' by (simp add: file_write_fields)
  ultimately show ?thesis using ne by blast
qed

lemma try_body_inv:
  assumes "try_body env n w = (res, w')" and "all_good env (calls w)"
  shows "run_inv env (calls w') res" "stdout w' = stdout w"
    "\<And>e. res = Inl e \<Longrightarrow> is_call_failure e \<Longrightarrow> response_txt w' = Some []"
  using try_body_inv'[OF assms] by blast+

lemma main_cases:
  assumes "main env n w = (res, w')"
  obtains
    (caught) m w0 where "try_body env n w = (Inl (ClientError m), w0)" "res = Inr ()"
      "w' = print (''A client error occurred: '' @ m) (log_error (''A client error occurred: '' @ m) w0)"
  | (raised) e where "try_body env n w = (Inl e, w')" "res = Inl e" "\<forall>m. e \<noteq> ClientError m"
  | (completed) "try_body env n w = (Inr (), w')" "res = Inr ()"
  using assms unfolding main_def
  by (auto split: prod.splits sum.splits exn.splits)

lemma run_summary:
  assumes "0 < n" and "open_file env w = (start, w1)"
    and "run_rounds env n w1 = (Inr rs, w2)" and "time_time env w2 = (t, w3)"
  shows "try_body env n w =
           (Inr (), w3\<lparr>response_txt := Some (spec_summary env (elapsed env t start) rs)\<rparr>)"
    and "main env n w =
           (Inr (), w3\<lparr>response_txt := Some (spec_summary env (elapsed env t start) rs)\<rparr>)"
    and "stdout w3 = stdout w"
    and "length rs = 3 \<and> list_all assessed rs \<and>
         sorted_wrt (\<ge>) (map (\<lambda>r. the (grade r)) rs)"
proof -
  note r = run_rounds_result[OF assms(3)]
  from r(2)[OF assms(1)] have a: "list_all assessed rs"
    and s: "sorted_wrt (\<ge>) (map (\<lambda>r. the (grade r)) rs)" by auto
  have ne: "rs \<noteq> []" using r(1) by auto
  have "response_txt w3 = Some []"
    using run_rounds_file(1)[OF assms(2,3)] time_time_frame(3)[OF assms(4)] by simp
  then have "file_write (spec_summary env (elapsed env t start) rs) w3
      = w3\<lparr>response_txt := Some (spec_summary env (elapsed env t start) rs)\<rparr>"
    by (simp add: file_write_def)
  then show tb: "try_body env n w =
      (Inr (), w3\<lparr>response_txt := Some (spec_summary env (elapsed env t start) rs)\<rparr>)"
    using assms(2,3,4) write_summary_assessed[OF a ne, of env "elapsed env t start" w3]
    by (simp add: try_body_def)
  then show "main env n w =
      (Inr (), w3\<lparr>response_txt := Some (spec_summary env (elapsed env t start) rs)\<rparr>)"
    by (simp add: main_def)
  show "stdout w3 = stdout w"
    using run_rounds_file(2)[OF assms(2,3)] time_time_frame(2)[OF assms(4)] by simp
  show "length rs = 3 \<and> list_all assessed rs \<and>
         sorted_wrt (\<ge>) (map (\<lambda>r. the (grade r)) rs)" using r(1) a s by simp
qed

text \<open>The same, with the intermediate states named by projections.\<close>

lemma run_summary_projected:
  assumes "0 < n" and "fst (run_rounds env n (snd (open_file env w))) = Inr rs"
  shows "fst (try_body env n w) = Inr ()"
    and "fst (main env n w) = Inr ()"
    and "response_txt (snd (main env n w)) =
           Some (spec_summary env
                  (elapsed env
                     (clock env (ticks (snd (run_rounds env n (snd (open_file env w))))))
                     (clock env (ticks w)))
                  rs)"
    and "stdout (snd (main env n w)) = stdout w"
    and "length rs = 3 \<and> list_all assessed rs \<and>
         sorted_wrt (\<ge>) (map (\<lambda>r. the (grade r)) rs)"
proof -
  let ?w1 = "snd (open_file env w)"
  let ?w2 = "snd (run_rounds env n ?w1)"
  have o: "open_file env w = (clock env (ticks w), ?w1)"
    by (simp add: open_file_def time_time_def)
  have r: "run_rounds env n ?w1 = (Inr rs, ?w2)"
    using assms(2) by (metis prod.collapse)
  have t: "time_time env ?w2 = (clock env (ticks ?w2), snd (time_time env ?w2))"
    by (simp add: time_time_def)
  note s = run_summary[OF assms(1) o r t]
  show "fst (try_body env n w) = Inr ()" using s(1) by simp
  show "fst (main env n w) = Inr ()" using s(2) by simp
  show "response_txt (snd (main env n w)) =
           Some (spec_summary env (elapsed env (clock env (ticks ?w2)) (clock env (ticks w))) rs)"
    using s(2) by simp
  show "stdout (snd (main env n w)) = stdout w" using s(2,3) by simp
  show "length rs = 3 \<and> list_all assessed rs \<and>
         sorted_wrt (\<ge>) (map (\<lambda>r. the (grade r)) rs)" by (rule s(4))
qed

text \<open>Without a round the summary raises \<open>KeyError\<close>: a run that completes had one.\<close>

lemma try_body_rounds:
  assumes "try_body env n w = (Inr (), w')"
  shows "0 < n"
proof (rule ccontr)
  assume "\<not> 0 < n"
  then have n: "n \<le> 0" by simp
  from assms show False
  proof (cases rule: try_body_cases)
    case (summary start w1 rs w2 t w3)
    from run_rounds_result(1)[OF summary(2)] obtain r others where rs: "rs = r # others"
      by (cases rs) auto
    from run_rounds_no_rounds[OF summary(2) n] have "feedback_time_taken r = None"
      unfolding rs by simp
    from write_summary_no_times[OF this, of env "elapsed env t start" others w3] summary(4)
    show False unfolding rs by simp
  qed simp
qed

lemma try_body_summary:
  assumes "try_body env n w = (Inr (), w')"
  shows "0 < n \<and>
         (\<exists>rs w2. run_rounds env n (snd (open_file env w)) = (Inr rs, w2) \<and>
            response_txt w2 = Some [] \<and>
            response_txt w' =
              Some (spec_summary env (elapsed env (clock env (ticks w2)) (clock env (ticks w))) rs))"
proof -
  note pos = try_body_rounds[OF assms]
  from assms show ?thesis
  proof (cases rule: try_body_cases)
    case (summary start w1 rs w2 t w3)
    have t: "t = clock env (ticks w2)" using summary(3) by (auto simp: time_time_def)
    note f = run_rounds_file[OF summary(1,2)]
    note o = open_file_frame[OF summary(1)]
    from run_summary(1)[OF pos summary(1,2,3)] assms
    have "w' = w3\<lparr>response_txt := Some (spec_summary env (elapsed env t start) rs)\<rparr>" by simp
    then have "response_txt w' =
        Some (spec_summary env (elapsed env (clock env (ticks w2)) (clock env (ticks w))) rs)"
      unfolding t o(4) by simp
    moreover have "run_rounds env n (snd (open_file env w)) = (Inr rs, w2)"
      using summary(1,2) by simp
    ultimately show ?thesis using pos f(1) by blast
  qed simp
qed

text \<open>
  C3, as the code has it. When the body of \<open>main\<close> completes, \<open>response.txt\<close> starts with an
  empty line and the marker line: the first marker is at index 1, so the part before
  it, which \<open>generate_html\<close> shows as the response, is empty. Nothing was written to the
  file when the rounds ended; every write is part of the summary, and the file is exactly
  \<open>spec_summary\<close> of the candidates as the rounds left them: each block carries the text the
  candidate has after the last round.
\<close>

theorem transcript_starts_with_marker:
  assumes "try_body env n w = (Inr (), w')"
  shows "main env n w = (Inr (), w') \<and>
         (\<exists>rest. response_txt w' = Some (''\<newline>SUMMARY OF PROCESS\<newline>'' @ rest) \<and>
            find_py marker (''\<newline>SUMMARY OF PROCESS\<newline>'' @ rest) = Some 1 \<and>
            (\<exists>summary. split_content (''\<newline>SUMMARY OF PROCESS\<newline>'' @ rest) = Inr ([], summary))) \<and>
         (\<exists>rs w2. run_rounds env n (snd (open_file env w)) = (Inr rs, w2) \<and>
            response_txt w2 = Some [] \<and>
            response_txt w' =
              Some (spec_summary env (elapsed env (clock env (ticks w2)) (clock env (ticks w))) rs))"
  using assms
proof (cases rule: try_body_cases)
  case (summary start w1 rs w2 t w3)
  note f = run_rounds_file[OF summary(1,2)]
  have e3: "response_txt w3 = Some []" using f(1) time_time_frame(3)[OF summary(3)] by simp
  from write_summary_appended(1)[OF summary(4)] obtain rest where
    "w' = file_write (''\<newline>SUMMARY OF PROCESS\<newline>'' @ rest) w3" by blast
  then have txt_eq: "response_txt w' = Some (''\<newline>SUMMARY OF PROCESS\<newline>'' @ rest)"
    using e3 by (simp add: file_write_def)
  have fnd: "find_py marker (''\<newline>SUMMARY OF PROCESS\<newline>'' @ rest) = Some 1"
    by (simp add: marker_def)
  have "split_content (''\<newline>SUMMARY OF PROCESS\<newline>'' @ rest)
      = Inr (strip (take 1 (''\<newline>SUMMARY OF PROCESS\<newline>'' @ rest)),
             strip (case find_py marker (drop (1 + length marker) (''\<newline>SUMMARY OF PROCESS\<newline>'' @ rest)) of
                      None \<Rightarrow> drop (1 + length marker) (''\<newline>SUMMARY OF PROCESS\<newline>'' @ rest)
                    | Some j \<Rightarrow> take j (drop (1 + length marker) (''\<newline>SUMMARY OF PROCESS\<newline>'' @ rest))))"
    by (rule split_content_marker[OF fnd])
  moreover have "strip (take 1 (''\<newline>SUMMARY OF PROCESS\<newline>'' @ rest)) = []"
    by (simp add: strip_def is_space_def)
  ultimately have sp: "\<exists>summary. split_content (''\<newline>SUMMARY OF PROCESS\<newline>'' @ rest) = Inr ([], summary)"
    by (metis (no_types, lifting))
  have m: "main env n w = (Inr (), w')" using assms by (simp add: main_def)
  have rr: "run_rounds env n (snd (open_file env w)) = (Inr rs, w2)" using summary(1,2) by simp
  from try_body_summary[OF assms] have sm: "response_txt w' =
      Some (spec_summary env (elapsed env (clock env (ticks w2)) (clock env (ticks w))) rs)"
    unfolding rr by simp
  have "\<exists>rs w2. run_rounds env n (snd (open_file env w)) = (Inr rs, w2) \<and>
            response_txt w2 = Some [] \<and>
            response_txt w' =
              Some (spec_summary env (elapsed env (clock env (ticks w2)) (clock env (ticks w))) rs)"
    using rr f(1) sm by blast
  then show ?thesis using m txt_eq fnd sp by blast
qed simp

text \<open>
  C6. In a run that starts with no call made: if a call of the run raised \<open>ClientError\<close>,
  it was the last call, \<open>main\<close> returned normally, the message was logged as an error and
  printed, and \<open>response.txt\<close> is empty; if a grade could not be extracted from the reply
  to a grading call, it was the last call, \<open>ValueError\<close> left \<open>main\<close>, nothing was printed,
  and \<open>response.txt\<close> is empty.
\<close>

theorem main_failures:
  assumes "calls w = []" and "main env n w = (res, w')"
  shows "(\<forall>k m. k < length (calls w') \<and> converse env k (calls w' ! k) = ConverseFails m \<longrightarrow>
            res = Inr () \<and> Suc k = length (calls w') \<and>
            stdout w' = stdout w @ [''A client error occurred: '' @ m] \<and>
            logged w' \<noteq> [] \<and> last (logged w') = (ERROR, ''A client error occurred: '' @ m) \<and>
            response_txt w' = Some []) \<and>
         (\<forall>k r. k < length (calls w') \<and> maxTokens (calls w' ! k) = 100 \<and>
            converse env k (calls w' ! k) = Converse r \<and> isl (extract_grade (out_text r)) \<longrightarrow>
            res = Inl (ValueError (''Could not extract a valid grade from the response: ''
                                   @ strip (out_text r))) \<and>
            Suc k = length (calls w') \<and> stdout w' = stdout w \<and> response_txt w' = Some [])"
proof -
  obtain res0 w0 where t: "try_body env n w = (res0, w0)" by (cases "try_body env n w")
  have good0: "all_good env (calls w)" using assms(1) by (simp add: all_good_Nil)
  note inv = try_body_inv[OF t good0]
  have calls: "calls w' = calls w0"
    using assms(2) by (cases rule: main_cases) (auto simp: t print_def log_error_def)
  have last_bad: "\<exists>e. res0 = Inl e \<and> is_call_failure e \<and> Suc k = length (calls w0) \<and>
                    bad_call env k (calls w0 ! k) e"
    if k: "k < length (calls w0)" and bad: "\<not> good_call env k (calls w0 ! k)" for k
  proof -
    have ng: "\<not> all_good env (calls w0)" using all_good_nth k bad by blast
    then obtain e where e: "res0 = Inl e" "is_call_failure e"
      using inv(1) by (cases res0) (auto simp: run_inv_def split: if_splits)
    with inv(1) have ne: "calls w0 \<noteq> []" and bl: "all_good env (butlast (calls w0))"
      and bc: "bad_call env (length (calls w0) - 1) (last (calls w0)) e"
      by (auto simp: run_inv_def)
    have "\<not> k < length (butlast (calls w0))"
    proof
      assume "k < length (butlast (calls w0))"
      then have "good_call env k (butlast (calls w0) ! k)" using bl all_good_nth by blast
      then show False using bad \<open>k < length (butlast (calls w0))\<close> by (simp add: nth_butlast)
    qed
    then have sk: "Suc k = length (calls w0)" using k by simp
    then have km: "length (calls w0) - 1 = k" by simp
    have "last (calls w0) = calls w0 ! (length (calls w0) - 1)" using ne by (rule last_conv_nth)
    then have "last (calls w0) = calls w0 ! k" unfolding km .
    then show ?thesis using e bc sk km by auto
  qed
  show ?thesis
  proof (rule conjI, goal_cases)
    case 1
    show ?case
    proof (intro allI, rule impI)
    fix k m
    assume a: "k < length (calls w') \<and> converse env k (calls w' ! k) = ConverseFails m"
    then have k: "k < length (calls w0)" and c: "converse env k (calls w0 ! k) = ConverseFails m"
      using calls by auto
    then have "\<not> good_call env k (calls w0 ! k)" by (simp add: good_call_def)
    from last_bad[OF k this] obtain e where e: "res0 = Inl e" "is_call_failure e"
      "Suc k = length (calls w0)" "bad_call env k (calls w0 ! k) e" by blast
    from e(4) c have em: "e = ClientError m" by (simp add: bad_call_def)
    have tb: "try_body env n w = (Inl (ClientError m), w0)" using t e(1) em by simp
    have file0: "response_txt w0 = Some []" using inv(3)[OF e(1) e(2)] .
    from assms(2) tb have r: "res = Inr ()"
      "w' = print (''A client error occurred: '' @ m) (log_error (''A client error occurred: '' @ m) w0)"
      by (auto simp: main_def)
    show "res = Inr () \<and> Suc k = length (calls w') \<and>
            stdout w' = stdout w @ [''A client error occurred: '' @ m] \<and>
            logged w' \<noteq> [] \<and> last (logged w') = (ERROR, ''A client error occurred: '' @ m) \<and>
            response_txt w' = Some []"
      using r e(3) inv(2) file0 by (simp add: print_def log_error_def)
    qed
  next
    case 2
    show ?case
    proof (intro allI, rule impI)
    fix k r
    assume a: "k < length (calls w') \<and> maxTokens (calls w' ! k) = 100 \<and>
            converse env k (calls w' ! k) = Converse r \<and> isl (extract_grade (out_text r))"
    then have k: "k < length (calls w0)" and mt: "maxTokens (calls w0 ! k) = 100"
      and c: "converse env k (calls w0 ! k) = Converse r"
      and il: "isl (extract_grade (out_text r))"
      using calls by auto
    then have "\<not> good_call env k (calls w0 ! k)" by (simp add: good_call_def)
    from last_bad[OF k this] obtain e where e: "res0 = Inl e" "is_call_failure e"
      "Suc k = length (calls w0)" "bad_call env k (calls w0 ! k) e" by blast
    from e(4) c have ee: "extract_grade (out_text r) = Inl e" by (simp add: bad_call_def)
    with extract_grade_total[of "out_text r"]
    have ev: "e = ValueError (''Could not extract a valid grade from the response: ''
                              @ strip (out_text r))" by auto
    have file0: "response_txt w0 = Some []" using inv(3)[OF e(1) e(2)] .
    from assms(2) t e(1) ev have r: "res = Inl e" "w' = w0" by (auto simp: main_def)
    show "res = Inl (ValueError (''Could not extract a valid grade from the response: ''
                                   @ strip (out_text r))) \<and>
            Suc k = length (calls w') \<and> stdout w' = stdout w \<and> response_txt w' = Some []"
      using r ev e(3) inv(2) file0 by simp
    qed
  qed
qed

section \<open>Properties: the claims about the run\<close>

lemma one_round_rounds:
  "(\<lambda>(r, w). (r, ticks w))
     (run_rounds (scripted one_round) 1 (snd (open_file (scripted one_round) fresh)))
   = (Inr one_round_result, 19)"
  by code_simp

lemma one_round_rounds_fst:
  "fst (run_rounds (scripted one_round) 1 (snd (open_file (scripted one_round) fresh)))
     = Inr one_round_result"
  and one_round_rounds_ticks:
  "ticks (snd (run_rounds (scripted one_round) 1 (snd (open_file (scripted one_round) fresh))))
     = 19"
  using one_round_rounds by (simp_all add: case_prod_unfold)

lemma one_round_summary:
  "spec_summary (scripted one_round) 19 one_round_result = one_round_transcript"
  by code_simp

lemma one_round_main:
  "fst (main (scripted one_round) 1 fresh) = Inr ()"
  "response_txt (snd (main (scripted one_round) 1 fresh)) = Some one_round_transcript"
  "fst (try_body (scripted one_round) 1 fresh) = Inr ()"
proof -
  have pos: "0 < (1 :: int)" by simp
  note s = run_summary_projected[OF pos one_round_rounds_fst]
  show "fst (main (scripted one_round) 1 fresh) = Inr ()" by (rule s(2))
  show "fst (try_body (scripted one_round) 1 fresh) = Inr ()" by (rule s(1))
  have "elapsed (scripted one_round)
          (clock (scripted one_round)
             (ticks (snd (run_rounds (scripted one_round) 1
                           (snd (open_file (scripted one_round) fresh))))))
          (clock (scripted one_round) (ticks fresh)) = 19"
    unfolding one_round_rounds_ticks by (simp add: scripted_def fresh_def)
  then show "response_txt (snd (main (scripted one_round) 1 fresh)) = Some one_round_transcript"
    using s(3) one_round_summary by simp
qed

text \<open>
  C7. When the number of rounds is positive and the seed phase and the rounds succeed with
  the candidate list \<open>rs\<close> (the order of the last sort, the first text refined), \<open>main\<close>
  returns and \<open>response.txt\<close> holds exactly \<open>spec_summary\<close>: the marker line, a line of
  40 \<open>=\<close>, the total time, one block per candidate of \<open>rs\<close> in order with its text,
  feedback, grade and three formatted times, a line of 40 \<open>=\<close>, and the line
  \<open>Best response: <text> (Grade: <grade>)\<close> of the first candidate. There are three
  candidates, in descending order of grade.
\<close>

theorem summary_written:
  assumes "0 < n" and "fst (run_rounds env n (snd (open_file env w))) = Inr rs"
  shows "fst (main env n w) = Inr () \<and>
         response_txt (snd (main env n w)) =
           Some (spec_summary env
                  (elapsed env
                     (clock env (ticks (snd (run_rounds env n (snd (open_file env w))))))
                     (clock env (ticks w)))
                  rs) \<and>
         length rs = 3 \<and> list_all assessed rs \<and>
         sorted_wrt (\<ge>) (map (\<lambda>r. the (grade r)) rs)"
  using run_summary_projected(2,3,5)[OF assms] by blast

text \<open>One round with the grades 50, 90 and 20.\<close>

theorem summary_written_witness:
  "fst (run_rounds (scripted one_round) 1 (snd (open_file (scripted one_round) fresh)))
     = Inr one_round_result \<and>
   fst (main (scripted one_round) 1 fresh) = Inr () \<and>
   response_txt (snd (main (scripted one_round) 1 fresh)) =
     Some (spec_summary (scripted one_round) 19 one_round_result) \<and>
   spec_summary (scripted one_round) 19 one_round_result = one_round_transcript"
proof -
  have pos: "0 < (1 :: int)" by simp
  note s = summary_written[OF pos one_round_rounds_fst]
  have "elapsed (scripted one_round)
          (clock (scripted one_round)
             (ticks (snd (run_rounds (scripted one_round) 1
                           (snd (open_file (scripted one_round) fresh))))))
          (clock (scripted one_round) (ticks fresh)) = 19"
    unfolding one_round_rounds_ticks by (simp add: scripted_def fresh_def)
  with s have "response_txt (snd (main (scripted one_round) 1 fresh)) =
     Some (spec_summary (scripted one_round) 19 one_round_result)" by simp
  with s one_round_rounds_fst one_round_summary show ?thesis by blast
qed

text \<open>The run of one round.\<close>

theorem transcript_starts_with_marker_witness:
  "(\<exists>rest. response_txt (snd (main (scripted one_round) 1 fresh))
            = Some (''\<newline>SUMMARY OF PROCESS\<newline>'' @ rest) \<and>
          find_py marker (''\<newline>SUMMARY OF PROCESS\<newline>'' @ rest) = Some 1 \<and>
          (\<exists>summary. split_content (''\<newline>SUMMARY OF PROCESS\<newline>'' @ rest) = Inr ([], summary))) \<and>
   response_txt (snd (main (scripted one_round) 1 fresh))
     = Some (spec_summary (scripted one_round) 19 one_round_result) \<and>
   map response one_round_result = [''delta'', ''alpha'', ''gamma'']"
proof -
  let ?w' = "snd (try_body (scripted one_round) 1 fresh)"
  have "try_body (scripted one_round) 1 fresh = (Inr (), ?w')"
    using one_round_main(3) by (metis prod.collapse)
  note t = transcript_starts_with_marker[OF this]
  from t have m: "main (scripted one_round) 1 fresh = (Inr (), ?w')" by (rule conjunct1)
  from t have r: "\<exists>rest. response_txt ?w' = Some (''\<newline>SUMMARY OF PROCESS\<newline>'' @ rest) \<and>
            find_py marker (''\<newline>SUMMARY OF PROCESS\<newline>'' @ rest) = Some 1 \<and>
            (\<exists>summary. split_content (''\<newline>SUMMARY OF PROCESS\<newline>'' @ rest) = Inr ([], summary))"
    by (rule conjunct2[THEN conjunct1])
  from t obtain rs w2 where
    rr: "run_rounds (scripted one_round) 1 (snd (open_file (scripted one_round) fresh)) = (Inr rs, w2)"
    and sm: "response_txt ?w' =
      Some (spec_summary (scripted one_round)
             (elapsed (scripted one_round) (clock (scripted one_round) (ticks w2))
                (clock (scripted one_round) (ticks fresh))) rs)"
    by blast
  have rs: "rs = one_round_result" using one_round_rounds_fst unfolding rr by simp
  have tk: "ticks w2 = 19" using one_round_rounds_ticks unfolding rr by simp
  have el: "elapsed (scripted one_round) (clock (scripted one_round) (ticks w2))
                (clock (scripted one_round) (ticks fresh)) = 19"
    unfolding tk by (simp add: scripted_def fresh_def)
  have s19: "response_txt ?w' = Some (spec_summary (scripted one_round) 19 one_round_result)"
    using sm unfolding el rs .
  have w: "snd (main (scripted one_round) 1 fresh) = ?w'" using m by simp
  have texts: "map response one_round_result = [''delta'', ''alpha'', ''gamma'']"
    by (simp add: one_round_result_def)
  show ?thesis unfolding w using r s19 texts by blast
qed

lemma one_round_transcript_facts:
  "find_py marker one_round_transcript = Some 1"
  "take 1 one_round_transcript = ''\<newline>''"
  "\<not> sublist ''beta'' one_round_transcript"
  by code_simp+

text \<open>
  C3 as stated fails on a successful run of one round with the seed responses \<open>alpha\<close>,
  \<open>beta\<close> and \<open>gamma\<close>: only a line break precedes the marker, and the seed \<open>beta\<close>, whose
  text the refinement replaced, is nowhere in the file.
\<close>

theorem transcript_without_prose:
  "take 3 one_round = [reply_of ''alpha'', reply_of ''beta'', reply_of ''gamma''] \<and>
   fst (main (scripted one_round) 1 fresh) = Inr () \<and>
   response_txt (snd (main (scripted one_round) 1 fresh)) = Some one_round_transcript \<and>
   find_py marker one_round_transcript = Some 1 \<and>
   take 1 one_round_transcript = ''\<newline>'' \<and>
   \<not> sublist ''beta'' one_round_transcript"
  using one_round_main(1,2) one_round_transcript_facts by (simp add: one_round_def)

text \<open>
  C5. A round that succeeds assesses every candidate, sorts them, and obtains a reply to
  the refinement request for the text of the first candidate of the sorted list. Its
  result is the sorted list with that text replaced by the reply: feedback, grade and the
  three times of the first candidate, and every other candidate, are those of the sorted
  list. The feedback, grades and times that the candidates bring into a round have no part
  in it: the round ends the same when they are cleared first, so what one round leaves
  stale the next one overwrites.
\<close>

theorem refinement_replaces_only_text:
  assumes "iteration_body env it rs w = (Inr rs', w')"
  shows "iteration_body env it (map unassessed rs) w = (Inr rs', w') \<and>
         (\<exists>rs1 w1 rs2 reply.
           assess_all env rs (log_info (''Iteration '' @ str_int (int it + 1)) w) = (Inr rs1, w1) \<and>
           list_all assessed rs1 \<and> sorted_by_grade rs1 = Inr rs2 \<and> rs2 \<noteq> [] \<and>
           converse env (length (calls w1))
             \<lparr>modelId = model_id, system = system_prompts,
              message = ''Refine the following response to make it more concise and technical but retain information:\<newline>\<newline>''
                        @ response (hd rs2),
              maxTokens = 1024\<rparr> = Converse reply \<and>
           rs' = (hd rs2)\<lparr>response := out_text reply\<rparr> # tl rs2 \<and>
           response (hd rs') = out_text reply \<and>
           feedback (hd rs') = feedback (hd rs2) \<and> grade (hd rs') = grade (hd rs2) \<and>
           time_taken (hd rs') = time_taken (hd rs2) \<and>
           feedback_time_taken (hd rs') = feedback_time_taken (hd rs2) \<and>
           grade_time_taken (hd rs') = grade_time_taken (hd rs2) \<and>
           tl rs' = tl rs2 \<and> length rs' = length rs2)"
proof -
  from iteration_body_result[OF assms] obtain rs1 w1 rs2 reply where
    a: "assess_all env rs (log_info (''Iteration '' @ str_int (int it + 1)) w) = (Inr rs1, w1)"
    and b: "list_all assessed rs1" and c: "sorted_by_grade rs1 = Inr rs2" and d: "rs2 \<noteq> []"
    and e: "rs' = (hd rs2)\<lparr>response := out_text reply\<rparr> # tl rs2"
    and f: "converse env (length (calls w1))
             \<lparr>modelId = model_id, system = system_prompts,
              message = ''Refine the following response to make it more concise and technical but retain information:\<newline>\<newline>''
                        @ response (hd rs2),
              maxTokens = 1024\<rparr> = Converse reply"
    by (elim exE conjE)
  have g: "response (hd rs') = out_text reply \<and>
           feedback (hd rs') = feedback (hd rs2) \<and> grade (hd rs') = grade (hd rs2) \<and>
           time_taken (hd rs') = time_taken (hd rs2) \<and>
           feedback_time_taken (hd rs') = feedback_time_taken (hd rs2) \<and>
           grade_time_taken (hd rs') = grade_time_taken (hd rs2) \<and>
           tl rs' = tl rs2 \<and> length rs' = length rs2"
    using d unfolding e by (cases rs2) simp_all
  have u: "iteration_body env it (map unassessed rs) w = (Inr rs', w')"
    using assms by (simp only: iteration_body_unassessed)
  show ?thesis
    by (rule conjI, rule u,
        rule exI[of _ rs1], rule exI[of _ w1], rule exI[of _ rs2], rule exI[of _ reply])
       (use a b c d e f g in blast)
qed

lemma one_round_iteration:
  "fst (iteration_body (scripted (drop 3 one_round)) 0 seeds fresh) = Inr one_round_result"
  by code_simp

text \<open>The scenario of the specification: the grades 50, 90, 20 sort to 90, 50, 20 and only
  the text of the candidate graded 90 is replaced.\<close>

theorem refinement_replaces_only_text_witness:
  "fst (iteration_body (scripted (drop 3 one_round)) 0 seeds fresh) = Inr one_round_result \<and>
   fst (iteration_body (scripted (drop 3 one_round)) 0 (map unassessed seeds) fresh)
     = Inr one_round_result \<and>
   (\<exists>rs1 rs2 t. sorted_by_grade rs1 = Inr rs2 \<and> rs2 \<noteq> [] \<and>
      one_round_result = (hd rs2)\<lparr>response := t\<rparr> # tl rs2 \<and>
      grade (hd one_round_result) = grade (hd rs2) \<and>
      feedback (hd one_round_result) = feedback (hd rs2) \<and>
      tl one_round_result = tl rs2)"
proof -
  have "iteration_body (scripted (drop 3 one_round)) 0 seeds fresh
      = (Inr one_round_result, snd (iteration_body (scripted (drop 3 one_round)) 0 seeds fresh))"
    using one_round_iteration by (metis prod.collapse)
  note t = refinement_replaces_only_text[OF this]
  from t have "fst (iteration_body (scripted (drop 3 one_round)) 0 (map unassessed seeds) fresh)
     = Inr one_round_result" by simp
  moreover from t have "\<exists>rs1 rs2 t. sorted_by_grade rs1 = Inr rs2 \<and> rs2 \<noteq> [] \<and>
      one_round_result = (hd rs2)\<lparr>response := t\<rparr> # tl rs2 \<and>
      grade (hd one_round_result) = grade (hd rs2) \<and>
      feedback (hd one_round_result) = feedback (hd rs2) \<and>
      tl one_round_result = tl rs2" by blast
  ultimately show ?thesis using one_round_iteration by blast
qed

lemma client_error_calls:
  "length (calls (snd (main (scripted client_error_run) 1 fresh))) = 5"
  by code_simp

lemma no_grade_calls:
  "length (calls (snd (main (scripted no_grade_run) 1 fresh))) = 5 \<and>
   maxTokens (calls (snd (main (scripted no_grade_run) 1 fresh)) ! 4) = 100"
  by code_simp

lemma no_grade_reply: "isl (extract_grade ''no grade'') \<and> strip ''no grade'' = ''no grade''"
  by code_simp

text \<open>A run whose fifth call is refused, and a run whose first grading reply has no
  grade.\<close>

theorem main_failures_witness:
  "fst (main (scripted client_error_run) 1 fresh) = Inr () \<and>
   stdout (snd (main (scripted client_error_run) 1 fresh))
     = [''A client error occurred: throttled''] \<and>
   last (logged (snd (main (scripted client_error_run) 1 fresh)))
     = (ERROR, ''A client error occurred: throttled'') \<and>
   response_txt (snd (main (scripted client_error_run) 1 fresh)) = Some [] \<and>
   length (calls (snd (main (scripted client_error_run) 1 fresh))) = 5 \<and>
   fst (main (scripted no_grade_run) 1 fresh)
     = Inl (ValueError ''Could not extract a valid grade from the response: no grade'') \<and>
   stdout (snd (main (scripted no_grade_run) 1 fresh)) = [] \<and>
   response_txt (snd (main (scripted no_grade_run) 1 fresh)) = Some [] \<and>
   length (calls (snd (main (scripted no_grade_run) 1 fresh))) = 5"
proof -
  let ?e1 = "scripted client_error_run"
  let ?e2 = "scripted no_grade_run"
  have c0: "calls fresh = []" by (simp add: fresh_def)
  have m1: "main ?e1 1 fresh = (fst (main ?e1 1 fresh), snd (main ?e1 1 fresh))" by simp
  have m2: "main ?e2 1 fresh = (fst (main ?e2 1 fresh), snd (main ?e2 1 fresh))" by simp
  have p1: "4 < length (calls (snd (main ?e1 1 fresh))) \<and>
      converse ?e1 4 (calls (snd (main ?e1 1 fresh)) ! 4) = ConverseFails ''throttled''"
    using client_error_calls by (simp add: scripted_def client_error_run_def)
  have p2: "4 < length (calls (snd (main ?e2 1 fresh))) \<and>
      maxTokens (calls (snd (main ?e2 1 fresh)) ! 4) = 100 \<and>
      converse ?e2 4 (calls (snd (main ?e2 1 fresh)) ! 4)
        = Converse \<lparr>out_text = ''no grade'', inputTokens = 1, outputTokens = 2, totalTokens = 3,
                     stopReason = ''end_turn''\<rparr> \<and>
      isl (extract_grade (out_text \<lparr>out_text = ''no grade'', inputTokens = 1, outputTokens = 2,
                                    totalTokens = 3, stopReason = ''end_turn''\<rparr>))"
    using no_grade_calls no_grade_reply by (simp add: scripted_def no_grade_run_def reply_of_def)
  note a = main_failures[OF c0 m1, THEN conjunct1, rule_format, OF p1]
  note b = main_failures[OF c0 m2, THEN conjunct2, rule_format, OF p2]
  show ?thesis
    using a b client_error_calls no_grade_calls no_grade_reply by (simp add: fresh_def)
qed

end
